theory Spec2Isabelle
  imports Complex_Main
begin

section \<open>Conventions of the embedding\<close>

text \<open>
  The repository holds two notebooks: the solutions of the Lucas asset pricing lecture
  (\<^verbatim>\<open>markov_asset/asset_solutions_py.ipynb\<close>) and the solutions of the
  ``need for speed'' lecture (a two-state Markov chain simulator written three times).

  NumPy arrays of floats are lists of reals: a vector is a \<open>real list\<close>, a
  two-dimensional array is the list of its rows. Arithmetic is exact: the rounding and the
  overflow of binary64 are not part of the model, so every statement below is a statement
  about the computation carried out in the real numbers. The one place where the notebooks
  depend on the binary format by construction, the float literals of the simulator, is
  modelled by the exact rational value of each literal.

  Exceptions are values: a function that can raise returns \<open>error + 'a\<close>. The
  value \<open>NotFinite\<close> is not an exception of the source: it marks the point where a
  power of the source evaluates to an infinity or to NaN (zero to a negative power, a
  negative number to a fractional power). NumPy goes on with such an array; no list of
  reals stands for it, so the model follows the computation up to that point only.
\<close>

datatype error = ValueError | IndexError | LinAlgError | NotFinite

type_synonym vec = "real list"
type_synonym mat = "real list list"

section \<open>The two-state Markov chain simulator\<close>

text \<open>
  \<^verbatim>\<open>p, q = 0.1, 0.2\<close> at module level are Python floats: the binary64 numbers
  nearest to one tenth and one fifth. The Cython function declares
  \<^verbatim>\<open>cdef float p = 0.1\<close> and \<^verbatim>\<open>cdef float q = 0.2\<close>: C's
  \<^verbatim>\<open>float\<close> is binary32, and the comparison with a \<^verbatim>\<open>float_t\<close>
  (binary64) element of \<open>U\<close> promotes the stored binary32 value to binary64
  without changing it.
\<close>

definition module_p :: real where
  "module_p = 7205759403792794 / 2 ^ 56"

definition module_q :: real where
  "module_q = 7205759403792794 / 2 ^ 55"

definition cy_p :: real where
  "cy_p = 13421773 / 2 ^ 27"

definition cy_q :: real where
  "cy_q = 13421773 / 2 ^ 26"

text \<open>
  One pass of the loop body at index \<open>t\<close>. The array \<open>x\<close> holds integers; a
  comparison stored into it is 0 or 1.
\<close>

definition series_step :: "real \<Rightarrow> real \<Rightarrow> real list \<Rightarrow> int list \<Rightarrow> nat \<Rightarrow> int list" where
  "series_step pl qh U x t =
     (let current_x = x ! (t - 1) in
      if current_x = 0 then x[t := of_bool (U ! t < pl)]
      else x[t := of_bool (U ! t > qh)])"

text \<open>
  \<open>U\<close> is the array that \<^verbatim>\<open>np.random.uniform(0, 1, size=n)\<close> returned, so
  its length is \<open>n\<close>. \<^verbatim>\<open>np.empty(n, dtype=int)\<close> has arbitrary contents;
  the loop writes every cell before it reads it, and the model starts from zeros.
  \<^verbatim>\<open>x[0] = 1\<close> raises IndexError on an empty array.
\<close>

definition series_loop :: "real \<Rightarrow> real \<Rightarrow> nat \<Rightarrow> real list \<Rightarrow> error + int list" where
  "series_loop pl qh n U =
     (if n = 0 then Inl IndexError
      else Inr (foldl (series_step pl qh U) ((replicate n 0)[0 := 1]) [1..<n]))"

definition compute_series :: "nat \<Rightarrow> real list \<Rightarrow> error + int list" where
  "compute_series n U = series_loop module_p module_q n U"

text \<open>\<^verbatim>\<open>compute_series_numba = jit(compute_series)\<close>: the same function, compiled.\<close>

definition compute_series_numba :: "nat \<Rightarrow> real list \<Rightarrow> error + int list" where
  "compute_series_numba n U = compute_series n U"

definition compute_series_cy :: "nat \<Rightarrow> real list \<Rightarrow> error + int list" where
  "compute_series_cy n U = series_loop cy_p cy_q n U"

section \<open>The asset pricing model\<close>

text \<open>
  The fields of the two classes carry a prefix (\<open>mc_P\<close> for \<^verbatim>\<open>mc.P\<close>,
  \<open>apm_beta\<close> for \<^verbatim>\<open>apm.beta\<close>), since a record field is a constant of
  the theory. \<open>markov_chain\<close> stands for any object with the attributes
  \<^verbatim>\<open>P\<close> and \<^verbatim>\<open>state_values\<close>.
\<close>

record markov_chain =
  mc_P :: mat
  mc_state_values :: vec

record asset_price_model =
  apm_beta :: real
  apm_mc :: markov_chain
  apm_gamma :: real
  apm_n :: nat

text \<open>
  \<^verbatim>\<open>__init__\<close> stores its three arguments and reads
  \<^verbatim>\<open>self.mc.P.shape[0]\<close>, the number of rows. It has no other statement.
\<close>

definition AssetPriceModel :: "real \<Rightarrow> markov_chain \<Rightarrow> real \<Rightarrow> error + asset_price_model" where
  "AssetPriceModel beta mc gamma =
     Inr \<lparr>apm_beta = beta, apm_mc = mc, apm_gamma = gamma, apm_n = length (mc_P mc)\<rparr>"

subsection \<open>NumPy operations\<close>

text \<open>The number of columns of a two-dimensional array (an array without rows has none).\<close>

definition ncols :: "mat \<Rightarrow> nat" where
  "ncols M = (case M of [] \<Rightarrow> 0 | r # _ \<Rightarrow> length r)"

definition has_shape :: "mat \<Rightarrow> nat \<Rightarrow> nat \<Rightarrow> bool" where
  "has_shape M r c = (length M = r \<and> list_all (\<lambda>row. length row = c) M)"

text \<open>
  \<^verbatim>\<open>P * y\<close> for a two-dimensional \<open>P\<close> and a one-dimensional \<open>y\<close>: NumPy
  aligns \<open>y\<close> with the last axis; an axis of length one is stretched; any other
  mismatch raises ValueError.
\<close>

definition broadcast_mul :: "mat \<Rightarrow> vec \<Rightarrow> error + mat" where
  "broadcast_mul M y =
     (if ncols M = length y then Inr (map (\<lambda>row. map2 (*) row y) M)
      else if length y = 1 then Inr (map (map (\<lambda>a. a * hd y)) M)
      else if ncols M = 1 then Inr (map (\<lambda>row. map (\<lambda>b. hd row * b) y) M)
      else Inl ValueError)"

text \<open>
  \<^verbatim>\<open>x**a\<close> on floats is C's \<^verbatim>\<open>pow\<close>. For a positive base it is the real
  power \<open>exp (a * ln x)\<close>. Any base to the power zero is one. Zero to a positive power
  is zero, and to a negative power an infinity. A negative base to an integral power is the
  power by repeated multiplication or division (\<open>(-2)**(-1) = -0.5\<close>), and to any
  other power NaN. \<open>None\<close> stands for the infinity and for NaN.
\<close>

definition float_pow :: "real \<Rightarrow> real \<Rightarrow> real option" where
  "float_pow x a =
     (if 0 < x then Some (x powr a)
      else if a = 0 then Some 1
      else if x = 0 then (if 0 < a then Some 0 else None)
      else if a \<in> \<int> then Some (x powi \<lfloor>a\<rfloor>)
      else None)"

text \<open>\<^verbatim>\<open>y**a\<close> on an array, entry by entry.\<close>

fun np_power :: "vec \<Rightarrow> real \<Rightarrow> error + vec" where
  "np_power [] a = Inr []"
| "np_power (v # vs) a =
     (case float_pow v a of
        None \<Rightarrow> Inl NotFinite
      | Some p \<Rightarrow> (case np_power vs a of Inl e \<Rightarrow> Inl e | Inr ps \<Rightarrow> Inr (p # ps)))"

definition P_tilde :: "asset_price_model \<Rightarrow> error + mat" where
  "P_tilde apm =
     (let P = mc_P (apm_mc apm);
          y = mc_state_values (apm_mc apm)
      in case np_power y (1 - apm_gamma apm) of
           Inl e \<Rightarrow> Inl e
         | Inr yp \<Rightarrow> broadcast_mul P yp)"

definition P_check :: "asset_price_model \<Rightarrow> error + mat" where
  "P_check apm =
     (let P = mc_P (apm_mc apm);
          y = mc_state_values (apm_mc apm)
      in case np_power y (- apm_gamma apm) of
           Inl e \<Rightarrow> Inl e
         | Inr yp \<Rightarrow> broadcast_mul P yp)"

subsection \<open>Linear algebra\<close>

text \<open>
  \<^verbatim>\<open>np.identity(n)\<close>, \<^verbatim>\<open>np.ones(n)\<close>, \<^verbatim>\<open>np.zeros(n)\<close>, the
  product of a scalar and an array, the difference of two arrays of one shape, the inner
  product and the product of a matrix and a vector (\<^verbatim>\<open>@\<close>, \<^verbatim>\<open>.dot\<close>).
\<close>

definition identity :: "nat \<Rightarrow> mat" where
  "identity n = map (\<lambda>i. map (\<lambda>j. if i = j then 1 else 0) [0..<n]) [0..<n]"

definition ones :: "nat \<Rightarrow> vec" where
  "ones n = replicate n 1"

definition zeros :: "nat \<Rightarrow> vec" where
  "zeros n = replicate n 0"

definition smult :: "real \<Rightarrow> mat \<Rightarrow> mat" where
  "smult c M = map (map ((*) c)) M"

definition mat_sub :: "mat \<Rightarrow> mat \<Rightarrow> mat" where
  "mat_sub A B = map2 (map2 (-)) A B"

definition dot :: "vec \<Rightarrow> vec \<Rightarrow> real" where
  "dot x y = sum_list (map2 (*) x y)"

definition matvec :: "mat \<Rightarrow> vec \<Rightarrow> vec" where
  "matvec M x = map (\<lambda>row. dot row x) M"

subsection \<open>The linear solver\<close>

text \<open>
  \<^verbatim>\<open>numpy.linalg.solve\<close> is LAPACK's \<^verbatim>\<open>gesv\<close>: Gaussian elimination with
  partial pivoting (the row with the entry of largest absolute value in the current column
  is swapped to the top), then substitution. In exact arithmetic the routine is the
  recursion below on the equations \<open>(row of a, entry of b)\<close>: pick the pivot row,
  eliminate the first unknown from the other rows, solve the smaller system, and compute
  the first unknown from the pivot row. LAPACK reports a singular matrix exactly when a
  pivot is zero; NumPy raises LinAlgError then, and when the matrix is not square.
\<close>

type_synonym equation = "real list \<times> real"

fun argmax_abs :: "real list \<Rightarrow> nat" where
  "argmax_abs [] = 0"
| "argmax_abs [a] = 0"
| "argmax_abs (a # b # bs) =
     (let k = argmax_abs (b # bs) in if \<bar>a\<bar> < \<bar>(b # bs) ! k\<bar> then Suc k else 0)"

definition swap_rows :: "nat \<Rightarrow> 'a list \<Rightarrow> 'a list" where
  "swap_rows k eqs = eqs[0 := eqs ! k, k := eqs ! 0]"

definition eliminate :: "equation \<Rightarrow> equation \<Rightarrow> equation" where
  "eliminate pv eq =
     (let f = hd (fst eq) / hd (fst pv)
      in (map2 (\<lambda>a b. a - f * b) (tl (fst eq)) (tl (fst pv)), snd eq - f * snd pv))"

function gauss :: "equation list \<Rightarrow> vec option" where
  "gauss eqs =
     (if eqs = [] then Some []
      else
        let k = argmax_abs (map (\<lambda>eq. hd (fst eq)) eqs);
            sw = swap_rows k eqs;
            pv = hd sw
        in if hd (fst pv) = 0 then None
           else case gauss (map (eliminate pv) (tl sw)) of
                  None \<Rightarrow> None
                | Some xs \<Rightarrow> Some ((snd pv - dot (tl (fst pv)) xs) / hd (fst pv) # xs))"
  by pat_completeness auto
termination
  by (relation "measure length") (auto simp: swap_rows_def)

declare gauss.simps [simp del]

definition solve :: "mat \<Rightarrow> vec \<Rightarrow> error + vec" where
  "solve a b =
     (if \<not> has_shape a (length a) (length a) then Inl LinAlgError
      else if length b \<noteq> length a then Inl ValueError
      else case gauss (zip a b) of None \<Rightarrow> Inl LinAlgError | Some x \<Rightarrow> Inr x)"

subsection \<open>Prices\<close>

text \<open>
  \<^verbatim>\<open>v = beta * solve(I - beta * P_tilde, P_tilde @ O)\<close>, with \<open>Ov\<close> for the
  source's \<^verbatim>\<open>O\<close> (a reserved symbol here). \<open>P_tilde\<close> has as many
  rows as \<open>P\<close>, which is \<open>n\<close> for a model built by the constructor. When it does not
  have \<open>n\<close> columns, \<^verbatim>\<open>P_tilde @ O\<close> raises ValueError, unless the broadcast in
  \<^verbatim>\<open>I - beta * P_tilde\<close> has raised it before; the shape test below stands for
  both.
\<close>

definition tree_price :: "asset_price_model \<Rightarrow> error + vec" where
  "tree_price apm =
     (let beta = apm_beta apm in
      case P_tilde apm of
        Inl e \<Rightarrow> Inl e
      | Inr Pt \<Rightarrow>
          let I = identity (apm_n apm);
              Ov = ones (apm_n apm)
          in if \<not> has_shape Pt (apm_n apm) (apm_n apm) then Inl ValueError
             else (case solve (mat_sub I (smult beta Pt)) (matvec Pt Ov) of
                     Inl e \<Rightarrow> Inl e
                   | Inr x \<Rightarrow> Inr (map ((*) beta) x)))"

text \<open>\<^verbatim>\<open>p_bar = beta * solve(I - beta * P_check, P_check.dot(zeta * O))\<close>.\<close>

definition consol_price :: "asset_price_model \<Rightarrow> real \<Rightarrow> error + vec" where
  "consol_price apm zeta =
     (let beta = apm_beta apm in
      case P_check apm of
        Inl e \<Rightarrow> Inl e
      | Inr Pc \<Rightarrow>
          let I = identity (apm_n apm);
              Ov = ones (apm_n apm)
          in if \<not> has_shape Pc (apm_n apm) (apm_n apm) then Inl ValueError
             else (case solve (mat_sub I (smult beta Pc)) (matvec Pc (map ((*) zeta) Ov)) of
                     Inl e \<Rightarrow> Inl e
                   | Inr x \<Rightarrow> Inr (map ((*) beta) x)))"

subsection \<open>The call option\<close>

text \<open>
  The variables of the loop in \<^verbatim>\<open>call_option\<close>: the current prices, the last
  error, the iteration counter and the dictionary of snapshots.
\<close>

record loop_state =
  ls_w_bar :: vec
  ls_error :: real
  ls_t :: int
  ls_w_bars :: "int \<rightharpoonup> vec"

text \<open>
  \<^verbatim>\<open>np.amax\<close> of a one-dimensional array raises ValueError when the array is
  empty. \<^verbatim>\<open>np.amax(np.vstack((u, v)), axis=0)\<close> is the entrywise maximum of two
  vectors of one length; \<^verbatim>\<open>np.vstack\<close> raises ValueError otherwise.
\<close>

definition amax :: "vec \<Rightarrow> error + real" where
  "amax xs = (case xs of [] \<Rightarrow> Inl ValueError | x # r \<Rightarrow> Inr (fold max r x))"

definition amax_vstack :: "vec \<Rightarrow> vec \<Rightarrow> error + vec" where
  "amax_vstack u v = (if length u \<noteq> length v then Inl ValueError else Inr (map2 max u v))"

text \<open>
  One pass of the loop body: the snapshot when \<^verbatim>\<open>t in T\<close>, the new prices
  \<^verbatim>\<open>max(beta * P_check.dot(w_bar), v_bar - p_s)\<close>, the error
  \<^verbatim>\<open>np.amax(np.abs(w_bar - w_bar_new))\<close>, and the update of \<open>w_bar\<close> and
  \<open>t\<close>. The snapshot stores the array bound to \<open>w_bar\<close>; the loop rebinds
  the name and never writes into an array, so a stored snapshot does not change.
  The loop is entered after \<open>consol_price\<close> has returned, hence with an
  \<open>n \<times> n\<close> matrix \<open>P_check\<close> and vectors \<open>v_bar\<close> and \<open>w_bar\<close> of length
  \<open>n\<close>: \<^verbatim>\<open>.dot\<close> and the differences do not raise.
\<close>

definition call_option_body ::
  "real \<Rightarrow> mat \<Rightarrow> vec \<Rightarrow> real \<Rightarrow> int list \<Rightarrow> loop_state \<Rightarrow> error + loop_state" where
  "call_option_body beta Pc v_bar p_s T s =
     (let w_bars = (if ls_t s \<in> set T then (ls_w_bars s)(ls_t s \<mapsto> ls_w_bar s) else ls_w_bars s)
      in case amax_vstack (map ((*) beta) (matvec Pc (ls_w_bar s))) (map (\<lambda>v. v - p_s) v_bar) of
           Inl e \<Rightarrow> Inl e
         | Inr w_bar_new \<Rightarrow>
             (case amax (map2 (\<lambda>a b. \<bar>a - b\<bar>) (ls_w_bar s) w_bar_new) of
                Inl e \<Rightarrow> Inl e
              | Inr err \<Rightarrow>
                  Inr \<lparr>ls_w_bar = w_bar_new, ls_error = err, ls_t = ls_t s + 1, ls_w_bars = w_bars\<rparr>))"

text \<open>
  \<^verbatim>\<open>while error > epsilon\<close> has no iteration cap: the loop is a partial function,
  and \<open>None\<close> stands for a run that never leaves it.
\<close>

partial_function (option) call_option_while ::
  "real \<Rightarrow> mat \<Rightarrow> vec \<Rightarrow> real \<Rightarrow> int list \<Rightarrow> real \<Rightarrow> loop_state \<Rightarrow> (error + loop_state) option" where
  "call_option_while beta Pc v_bar p_s T epsilon s =
     (if ls_error s > epsilon then
        (case call_option_body beta Pc v_bar p_s T s of
           Inl e \<Rightarrow> Some (Inl e)
         | Inr s' \<Rightarrow> call_option_while beta Pc v_bar p_s T epsilon s')
      else Some (Inr s))"

text \<open>
  \<open>call_option_run\<close> is the function up to the \<^verbatim>\<open>return\<close>, with the
  variables of the loop as they are when it ends; \<open>ls_t\<close> of the result is the
  number of passes made. \<open>call_option\<close> returns \<^verbatim>\<open>w_bar, w_bars\<close>.
\<close>

definition call_option_run ::
  "asset_price_model \<Rightarrow> real \<Rightarrow> real \<Rightarrow> int list \<Rightarrow> real \<Rightarrow> (error + loop_state) option" where
  "call_option_run apm zeta p_s T epsilon =
     (let beta = apm_beta apm in
      case P_check apm of
        Inl e \<Rightarrow> Some (Inl e)
      | Inr Pc \<Rightarrow>
          (case consol_price apm zeta of
             Inl e \<Rightarrow> Some (Inl e)
           | Inr v_bar \<Rightarrow>
               call_option_while beta Pc v_bar p_s T epsilon
                 \<lparr>ls_w_bar = zeros (apm_n apm), ls_error = epsilon + 1, ls_t = 0, ls_w_bars = Map.empty\<rparr>))"

definition call_option ::
  "asset_price_model \<Rightarrow> real \<Rightarrow> real \<Rightarrow> int list \<Rightarrow> real \<Rightarrow> (error + vec \<times> (int \<rightharpoonup> vec)) option" where
  "call_option apm zeta p_s T epsilon =
     map_option (map_sum id (\<lambda>s. (ls_w_bar s, ls_w_bars s))) (call_option_run apm zeta p_s T epsilon)"

subsection \<open>Valid models\<close>

text \<open>
  A valid model: a discount factor in \<open>(0, 1)\<close>, an \<open>n \<times> n\<close> transition matrix
  with nonnegative entries whose rows sum to one, and \<open>n\<close> state values.
\<close>

definition valid_model :: "asset_price_model \<Rightarrow> bool" where
  "valid_model apm =
     (0 < apm_beta apm \<and> apm_beta apm < 1 \<and>
      has_shape (mc_P (apm_mc apm)) (apm_n apm) (apm_n apm) \<and>
      list_all (\<lambda>row. list_all (\<lambda>a. 0 \<le> a) row \<and> sum_list row = 1) (mc_P (apm_mc apm)) \<and>
      length (mc_state_values (apm_mc apm)) = apm_n apm)"

text \<open>Strictly positive state values.\<close>

definition positive_states :: "asset_price_model \<Rightarrow> bool" where
  "positive_states apm = list_all (\<lambda>v. 0 < v) (mc_state_values (apm_mc apm))"

text \<open>A square matrix is nonsingular when only the zero vector is mapped to zero.\<close>

definition nonsingular :: "mat \<Rightarrow> bool" where
  "nonsingular a =
     (\<forall>x. length x = length a \<and> matvec a x = zeros (length a) \<longrightarrow> x = zeros (length a))"

subsection \<open>The worked example\<close>

text \<open>
  The parameter cell of the notebook:
  \<^verbatim>\<open>P = 0.0125 * np.ones((n, n)); P += np.diag(0.95 - 0.0125 * np.ones(5))\<close>,
  the state values \<^verbatim>\<open>s\<close>, \<^verbatim>\<open>gamma = 2.0\<close> and
  \<^verbatim>\<open>beta = 0.94\<close>.
\<close>

definition ones2 :: "nat \<Rightarrow> nat \<Rightarrow> mat" where
  "ones2 r c = replicate r (replicate c 1)"

definition diag :: "vec \<Rightarrow> mat" where
  "diag v = map (\<lambda>i. map (\<lambda>j. if i = j then v ! i else 0) [0..<length v]) [0..<length v]"

definition mat_add :: "mat \<Rightarrow> mat \<Rightarrow> mat" where
  "mat_add A B = map2 (map2 (+)) A B"

definition example_P :: mat where
  "example_P = mat_add (smult 0.0125 (ones2 5 5)) (diag (map (\<lambda>e. 0.95 - 0.0125 * e) (ones 5)))"

definition example_s :: vec where
  "example_s = [1.05, 1.025, 1.0, 0.975, 0.95]"

definition example_mc :: markov_chain where
  "example_mc = \<lparr>mc_P = example_P, mc_state_values = example_s\<rparr>"

definition example_apm :: asset_price_model where
  "example_apm = \<lparr>apm_beta = 0.94, apm_mc = example_mc, apm_gamma = 2.0, apm_n = 5\<rparr>"

text \<open>
  The matrix with \<open>d\<close> on the diagonal and \<open>c\<close> elsewhere, the model with
  \<open>0.9375\<close> on the diagonal, and closeness of two vectors entry by entry.
\<close>

definition diag_offdiag :: "nat \<Rightarrow> real \<Rightarrow> real \<Rightarrow> mat" where
  "diag_offdiag n d c = map (\<lambda>i. map (\<lambda>j. if i = j then d else c) [0..<n]) [0..<n]"

definition claimed_apm :: asset_price_model where
  "claimed_apm = \<lparr>apm_beta = 0.94,
       apm_mc = \<lparr>mc_P = diag_offdiag 5 0.9375 0.0125, mc_state_values = example_s\<rparr>,
       apm_gamma = 2.0, apm_n = 5\<rparr>"

definition close_to :: "real \<Rightarrow> vec \<Rightarrow> vec \<Rightarrow> bool" where
  "close_to tol v w = list_all2 (\<lambda>a b. \<bar>a - b\<bar> \<le> tol) v w"

subsection \<open>Notions used in the proofs\<close>

text \<open>
  A system of \<open>m\<close> equations in \<open>m\<close> unknowns; an equation with its right-hand
  side scaled; a system whose homogeneous form has the zero vector as its only solution.
\<close>

definition system :: "nat \<Rightarrow> equation list \<Rightarrow> bool" where
  "system m eqs = (length eqs = m \<and> (\<forall>eq \<in> set eqs. length (fst eq) = m))"

definition scale_rhs :: "real \<Rightarrow> equation \<Rightarrow> equation" where
  "scale_rhs c eq = (fst eq, c * snd eq)"

definition kernel_trivial :: "equation list \<Rightarrow> bool" where
  "kernel_trivial eqs =
     (\<forall>x. length x = length eqs \<and> (\<forall>eq \<in> set eqs. dot (fst eq) x = 0) \<longrightarrow> x = zeros (length eqs))"

text \<open>
  The Bellman update of the loop as a function of the current prices, and matrices
  without negative entries.
\<close>

definition bellman :: "real \<Rightarrow> mat \<Rightarrow> vec \<Rightarrow> real \<Rightarrow> vec \<Rightarrow> vec" where
  "bellman beta Pc v_bar p_s w = map2 max (map ((*) beta) (matvec Pc w)) (map (\<lambda>v. v - p_s) v_bar)"

definition nonneg_mat :: "mat \<Rightarrow> bool" where
  "nonneg_mat M = list_all (list_all (\<lambda>a. 0 \<le> a)) M"

subsection \<open>Spectral radius\<close>

text \<open>
  The product and the powers of square matrices, and the maximum absolute row sum, which is
  the matrix norm induced by the maximum norm of vectors. The spectral radius is taken by
  Gelfand's formula: it is the infimum (and the limit) of \<open>\<parallel>M^k\<parallel>^(1/k)\<close> over
  \<open>k \<ge> 1\<close>, for any induced matrix norm.
\<close>

definition column :: "mat \<Rightarrow> nat \<Rightarrow> vec" where
  "column M j = map (\<lambda>row. row ! j) M"

definition mat_mul :: "mat \<Rightarrow> mat \<Rightarrow> mat" where
  "mat_mul A B = map (\<lambda>row. map (\<lambda>j. dot row (column B j)) [0..<ncols B]) A"

primrec mat_pow :: "mat \<Rightarrow> nat \<Rightarrow> mat" where
  "mat_pow M 0 = identity (length M)"
| "mat_pow M (Suc k) = mat_mul M (mat_pow M k)"

definition mat_norm :: "mat \<Rightarrow> real" where
  "mat_norm M = Max (insert 0 (set (map (\<lambda>row. sum_list (map abs row)) M)))"

definition spectral_radius :: "mat \<Rightarrow> real" where
  "spectral_radius M = Inf {root k (mat_norm (mat_pow M k)) | k. 0 < k}"

text \<open>
  The entrywise distance of two vectors, the iterates of the Bellman update from the zero
  vector, and the change from one iterate to the next.
\<close>

definition abs_diff :: "vec \<Rightarrow> vec \<Rightarrow> vec" where
  "abs_diff u v = map2 (\<lambda>a b. \<bar>a - b\<bar>) u v"

definition bellman_iter :: "real \<Rightarrow> mat \<Rightarrow> vec \<Rightarrow> real \<Rightarrow> nat \<Rightarrow> nat \<Rightarrow> vec" where
  "bellman_iter beta Pc v_bar p_s n k = (bellman beta Pc v_bar p_s ^^ k) (zeros n)"

definition bellman_change :: "real \<Rightarrow> mat \<Rightarrow> vec \<Rightarrow> real \<Rightarrow> nat \<Rightarrow> nat \<Rightarrow> vec" where
  "bellman_change beta Pc v_bar p_s n k =
     abs_diff (bellman_iter beta Pc v_bar p_s n k) (bellman_iter beta Pc v_bar p_s n (Suc k))"

text \<open>A model with two states on which the functions are run below.\<close>

definition apm0 :: asset_price_model where
  "apm0 = \<lparr>apm_beta = 1/2, apm_mc = \<lparr>mc_P = [[1/2, 1/2], [1/4, 3/4]], mc_state_values = [1, 1]\<rparr>,
            apm_gamma = 2, apm_n = 2\<rparr>"

text \<open>
  A model with a negative state value and an integral risk aversion, and a model whose
  kernel \<open>P_check\<close> has negative entries.
\<close>

definition apm_mixed :: asset_price_model where
  "apm_mixed = \<lparr>apm_beta = 1/2,
       apm_mc = \<lparr>mc_P = [[1/2, 1/2], [1/4, 3/4]], mc_state_values = [- 2, 1]\<rparr>,
       apm_gamma = 2, apm_n = 2\<rparr>"

definition apm_neg :: asset_price_model where
  "apm_neg = \<lparr>apm_beta = 1/2,
       apm_mc = \<lparr>mc_P = [[1/2, 1/2], [2/5, 3/5]], mc_state_values = [- (1/4), 1/4]\<rparr>,
       apm_gamma = 1, apm_n = 2\<rparr>"

section \<open>Properties\<close>

subsection \<open>Pricing kernels\<close>

lemma ncols_has_shape: "has_shape M r c \<Longrightarrow> 0 < r \<Longrightarrow> ncols M = c"
  by (cases M) (auto simp: has_shape_def ncols_def)

lemma broadcast_mul_matching:
  assumes "has_shape M r c" and "length y = c" and "0 < r \<or> c = 0"
  shows "broadcast_mul M y = Inr (map (\<lambda>row. map2 (*) row y) M)"
proof (cases M)
  case Nil
  with assms show ?thesis by (simp add: broadcast_mul_def ncols_def has_shape_def)
next
  case (Cons a list)
  with assms have "ncols M = length y" by (simp add: ncols_def has_shape_def)
  then show ?thesis by (simp add: broadcast_mul_def)
qed

lemma np_power_list_all2:
  "np_power y a = Inr yp \<Longrightarrow> list_all2 (\<lambda>v p. float_pow v a = Some p) y yp"
  by (induction y arbitrary: yp) (auto split: option.splits sum.splits)

lemma np_power_length: "np_power y a = Inr yp \<Longrightarrow> length yp = length y"
  by (drule np_power_list_all2) (simp add: list_all2_lengthD)

lemma np_power_nth:
  "np_power y a = Inr yp \<Longrightarrow> j < length y \<Longrightarrow> float_pow (y ! j) a = Some (yp ! j)"
  by (drule np_power_list_all2) (auto dest: list_all2_nthD)

lemma np_power_positive:
  "list_all (\<lambda>v. 0 < v) y \<Longrightarrow> np_power y a = Inr (map (\<lambda>v. v powr a) y)"
  by (induction y) (simp_all add: float_pow_def)

lemma floor_minus_one_real: "\<lfloor>- 1 :: real\<rfloor> = - 1"
  by (simp add: floor_eq_iff)

lemma P_tilde_matching:
  assumes "has_shape (mc_P (apm_mc apm)) n n"
    and "length (mc_state_values (apm_mc apm)) = n"
    and "np_power (mc_state_values (apm_mc apm)) (1 - apm_gamma apm) = Inr yp"
  shows "P_tilde apm = Inr (map (\<lambda>row. map2 (*) row yp) (mc_P (apm_mc apm)))"
    and "has_shape (map (\<lambda>row. map2 (*) row yp) (mc_P (apm_mc apm))) n n"
proof -
  have ly: "length yp = n" using np_power_length [OF assms(3)] assms(2) by simp
  have "0 < n \<or> n = 0" by auto
  then show "P_tilde apm = Inr (map (\<lambda>row. map2 (*) row yp) (mc_P (apm_mc apm)))"
    using broadcast_mul_matching [OF assms(1) ly] assms(3) by (simp add: P_tilde_def)
  show "has_shape (map (\<lambda>row. map2 (*) row yp) (mc_P (apm_mc apm))) n n"
    using assms(1) ly by (auto simp: has_shape_def list_all_length)
qed

lemma P_check_matching:
  assumes "has_shape (mc_P (apm_mc apm)) n n"
    and "length (mc_state_values (apm_mc apm)) = n"
    and "np_power (mc_state_values (apm_mc apm)) (- apm_gamma apm) = Inr yp"
  shows "P_check apm = Inr (map (\<lambda>row. map2 (*) row yp) (mc_P (apm_mc apm)))"
    and "has_shape (map (\<lambda>row. map2 (*) row yp) (mc_P (apm_mc apm))) n n"
proof -
  have ly: "length yp = n" using np_power_length [OF assms(3)] assms(2) by simp
  have "0 < n \<or> n = 0" by auto
  then show "P_check apm = Inr (map (\<lambda>row. map2 (*) row yp) (mc_P (apm_mc apm)))"
    using broadcast_mul_matching [OF assms(1) ly] assms(3) by (simp add: P_check_def)
  show "has_shape (map (\<lambda>row. map2 (*) row yp) (mc_P (apm_mc apm))) n n"
    using assms(1) ly by (auto simp: has_shape_def list_all_length)
qed

text \<open>
  C7. For a model whose chain has an \<open>n \<times> n\<close> transition matrix and \<open>n\<close> state
  values, each with a finite power \<open>state_values[y] ** (1 - gamma)\<close>, \<open>P_tilde\<close>
  returns the \<open>n \<times> n\<close> matrix with entry \<open>P[x,y] * state_values[y] ** (1 - gamma)\<close> at
  \<open>(x, y)\<close>: column \<open>y\<close> of the transition matrix scaled by that power. The power is the
  one of the source, also for a zero or negative state value. The result is a function of
  the stored primitives alone.
\<close>

theorem P_tilde_entries:
  assumes "has_shape (mc_P (apm_mc apm)) n n"
    and "length (mc_state_values (apm_mc apm)) = n"
    and "list_all (\<lambda>v. float_pow v (1 - apm_gamma apm) \<noteq> None) (mc_state_values (apm_mc apm))"
  shows "\<exists>M. P_tilde apm = Inr M \<and> has_shape M n n \<and>
           (\<forall>x < n. \<forall>y < n. \<exists>p.
              float_pow (mc_state_values (apm_mc apm) ! y) (1 - apm_gamma apm) = Some p \<and>
              M ! x ! y = mc_P (apm_mc apm) ! x ! y * p)"
proof -
  let ?P = "mc_P (apm_mc apm)"
  let ?sv = "mc_state_values (apm_mc apm)"
  have "\<exists>yp. np_power sv (1 - apm_gamma apm) = Inr yp"
    if "list_all (\<lambda>v. float_pow v (1 - apm_gamma apm) \<noteq> None) sv" for sv
    using that by (induction sv) auto
  from this [OF assms(3)] obtain yp where yp: "np_power ?sv (1 - apm_gamma apm) = Inr yp" ..
  let ?M = "map (\<lambda>row. map2 (*) row yp) ?P"
  have ly: "length yp = n" using np_power_length [OF yp] assms(2) by simp
  have rows: "\<And>x. x < n \<Longrightarrow> length (?P ! x) = n"
    using assms(1) by (auto simp: has_shape_def list_all_length)
  have ent: "\<forall>x < n. \<forall>y < n. \<exists>p. float_pow (?sv ! y) (1 - apm_gamma apm) = Some p \<and>
      ?M ! x ! y = ?P ! x ! y * p"
  proof (intro allI impI)
    fix x y assume x: "x < n" and y: "y < n"
    have "float_pow (?sv ! y) (1 - apm_gamma apm) = Some (yp ! y)"
      using np_power_nth [OF yp] y assms(2) by simp
    moreover have "?M ! x ! y = ?P ! x ! y * yp ! y"
      using x y assms(1) rows ly by (simp add: has_shape_def)
    ultimately show "\<exists>p. float_pow (?sv ! y) (1 - apm_gamma apm) = Some p \<and>
      ?M ! x ! y = ?P ! x ! y * p" by blast
  qed
  from P_tilde_matching [OF assms(1,2) yp] ent show ?thesis by blast
qed

text \<open>
  The theorem at three models: state values \<open>[1, 4]\<close> with \<open>gamma = 1/2\<close>; state values
  \<open>[-2, 1]\<close> with \<open>gamma = 2\<close>, where \<open>(-2) ** (-1) = -1/2\<close>; and state values
  \<open>[0, 1]\<close> with \<open>gamma = 1\<close>, where \<open>0 ** 0 = 1\<close>.
\<close>

theorem P_tilde_entries_witness:
  "(\<exists>M. P_tilde \<lparr>apm_beta = 1/2, apm_mc = \<lparr>mc_P = [[1/2, 1/2], [1/4, 3/4]], mc_state_values = [1, 4]\<rparr>,
                  apm_gamma = 1/2, apm_n = 2\<rparr> = Inr M \<and> M ! 1 ! 1 = 3/4 * 4 powr (1/2) \<and> M ! 0 ! 0 = 1/2) \<and>
   (\<exists>M. P_tilde apm_mixed = Inr M \<and> M ! 0 ! 0 = - (1/4) \<and> M ! 1 ! 0 = - (1/8) \<and> M ! 1 ! 1 = 3/4) \<and>
   (\<exists>M. P_tilde \<lparr>apm_beta = 1/2, apm_mc = \<lparr>mc_P = [[1/2, 1/2], [1/4, 3/4]], mc_state_values = [0, 1]\<rparr>,
                  apm_gamma = 1, apm_n = 2\<rparr> = Inr M \<and> M ! 0 ! 0 = 1/2 \<and> M ! 1 ! 1 = 3/4)"
proof -
  let ?apm = "\<lparr>apm_beta = 1/2, apm_mc = \<lparr>mc_P = [[1/2, 1/2], [1/4, 3/4]], mc_state_values = [1, 4]\<rparr>,
                  apm_gamma = 1/2, apm_n = 2\<rparr> :: asset_price_model"
  let ?apz = "\<lparr>apm_beta = 1/2, apm_mc = \<lparr>mc_P = [[1/2, 1/2], [1/4, 3/4]], mc_state_values = [0, 1]\<rparr>,
                  apm_gamma = 1, apm_n = 2\<rparr> :: asset_price_model"
  have A: "\<exists>M. P_tilde ?apm = Inr M \<and> M ! 1 ! 1 = 3/4 * 4 powr (1/2) \<and> M ! 0 ! 0 = 1/2"
  proof -
    have s: "has_shape (mc_P (apm_mc ?apm)) 2 2" by (simp add: has_shape_def)
    have l: "length (mc_state_values (apm_mc ?apm)) = 2" by simp
    have f: "list_all (\<lambda>v. float_pow v (1 - apm_gamma ?apm) \<noteq> None) (mc_state_values (apm_mc ?apm))"
      by (simp add: float_pow_def)
    from P_tilde_entries [OF s l f] obtain M where
      M: "P_tilde ?apm = Inr M"
      and e: "\<forall>x < 2. \<forall>y < 2. \<exists>p. float_pow (mc_state_values (apm_mc ?apm) ! y) (1 - apm_gamma ?apm) = Some p \<and>
                M ! x ! y = mc_P (apm_mc ?apm) ! x ! y * p"
      by blast
    from e [rule_format, of 1 1] have "M ! 1 ! 1 = 3/4 * 4 powr (1/2)" by (auto simp: float_pow_def)
    moreover from e [rule_format, of 0 0] have "M ! 0 ! 0 = 1/2" by (auto simp: float_pow_def)
    ultimately show ?thesis using M by blast
  qed
  have B: "\<exists>M. P_tilde apm_mixed = Inr M \<and> M ! 0 ! 0 = - (1/4) \<and> M ! 1 ! 0 = - (1/8) \<and> M ! 1 ! 1 = 3/4"
  proof -
    have s: "has_shape (mc_P (apm_mc apm_mixed)) 2 2" by (simp add: has_shape_def apm_mixed_def)
    have l: "length (mc_state_values (apm_mc apm_mixed)) = 2" by (simp add: apm_mixed_def)
    have f: "list_all (\<lambda>v. float_pow v (1 - apm_gamma apm_mixed) \<noteq> None) (mc_state_values (apm_mc apm_mixed))"
      by (simp add: float_pow_def apm_mixed_def)
    from P_tilde_entries [OF s l f] obtain M where
      M: "P_tilde apm_mixed = Inr M"
      and e: "\<forall>x < 2. \<forall>y < 2. \<exists>p. float_pow (mc_state_values (apm_mc apm_mixed) ! y) (1 - apm_gamma apm_mixed) = Some p \<and>
                M ! x ! y = mc_P (apm_mc apm_mixed) ! x ! y * p"
      by blast
    from e [rule_format, of 0 0] have "M ! 0 ! 0 = - (1/4)"
      by (auto simp: float_pow_def apm_mixed_def floor_minus_one_real power_int_minus)
    moreover from e [rule_format, of 1 0] have "M ! 1 ! 0 = - (1/8)"
      by (auto simp: float_pow_def apm_mixed_def floor_minus_one_real power_int_minus)
    moreover from e [rule_format, of 1 1] have "M ! 1 ! 1 = 3/4"
      by (auto simp: float_pow_def apm_mixed_def)
    ultimately show ?thesis using M by blast
  qed
  have C: "\<exists>M. P_tilde ?apz = Inr M \<and> M ! 0 ! 0 = 1/2 \<and> M ! 1 ! 1 = 3/4"
  proof -
    have s: "has_shape (mc_P (apm_mc ?apz)) 2 2" by (simp add: has_shape_def)
    have l: "length (mc_state_values (apm_mc ?apz)) = 2" by simp
    have f: "list_all (\<lambda>v. float_pow v (1 - apm_gamma ?apz) \<noteq> None) (mc_state_values (apm_mc ?apz))"
      by (simp add: float_pow_def)
    from P_tilde_entries [OF s l f] obtain M where
      M: "P_tilde ?apz = Inr M"
      and e: "\<forall>x < 2. \<forall>y < 2. \<exists>p. float_pow (mc_state_values (apm_mc ?apz) ! y) (1 - apm_gamma ?apz) = Some p \<and>
                M ! x ! y = mc_P (apm_mc ?apz) ! x ! y * p"
      by blast
    from e [rule_format, of 0 0] have "M ! 0 ! 0 = 1/2" by (auto simp: float_pow_def)
    moreover from e [rule_format, of 1 1] have "M ! 1 ! 1 = 3/4" by (auto simp: float_pow_def)
    ultimately show ?thesis using M by blast
  qed
  from A B C show ?thesis by blast
qed

subsection \<open>Construction\<close>

text \<open>
  C3 (as the code has it). Construction validates nothing: for every discount factor,
  chain and risk aversion it returns the model that stores them, with \<open>n\<close> the number
  of rows of the transition matrix.
\<close>

theorem AssetPriceModel_total:
  "AssetPriceModel beta mc gamma =
     Inr \<lparr>apm_beta = beta, apm_mc = mc, apm_gamma = gamma, apm_n = length (mc_P mc)\<rparr>"
  by (simp add: AssetPriceModel_def)

text \<open>
  A chain whose matrix is \<open>1 \<times> 3\<close>, whose only row sums to three quarters and which
  has two state values is accepted.
\<close>

theorem AssetPriceModel_invalid_accepted:
  "\<not> has_shape [[1/2, 1/4, 0]] 1 1 \<and> sum_list [1/2, 1/4, 0 :: real] \<noteq> 1 \<and>
   length [1, 1 :: real] \<noteq> length [[1/2, 1/4, 0 :: real]] \<and>
   AssetPriceModel (47/50) \<lparr>mc_P = [[1/2, 1/4, 0]], mc_state_values = [1, 1]\<rparr> 2 =
     Inr \<lparr>apm_beta = 47/50, apm_mc = \<lparr>mc_P = [[1/2, 1/4, 0]], mc_state_values = [1, 1]\<rparr>,
          apm_gamma = 2, apm_n = 1\<rparr>"
  by (simp add: AssetPriceModel_def has_shape_def)

subsection \<open>The three simulators\<close>

text \<open>
  The constants are the floating-point numbers nearest to one tenth and one fifth: a
  53-bit (24-bit) numerator over a power of two, within half a unit in the last place.
\<close>

lemma module_constants_nearest:
  "\<bar>module_p - 1/10\<bar> \<le> 1 / 2 ^ 57 \<and> \<bar>module_q - 1/5\<bar> \<le> 1 / 2 ^ 56 \<and>
   (2::nat) ^ 52 \<le> 7205759403792794 \<and> (7205759403792794::nat) < 2 ^ 53"
  by (simp add: module_p_def module_q_def)

lemma cy_constants_nearest:
  "\<bar>cy_p - 1/10\<bar> \<le> 1 / 2 ^ 28 \<and> \<bar>cy_q - 1/5\<bar> \<le> 1 / 2 ^ 27 \<and>
   (2::nat) ^ 23 \<le> 13421773 \<and> (13421773::nat) < 2 ^ 24"
  by (simp add: cy_p_def cy_q_def)

text \<open>
  C9 (as the code has it). For the draws \<open>U = [1/2, 214748365 / 2^30]\<close>, both binary64
  numbers in \<open>[0, 1)\<close>, the second lies above the binary64 value of \<open>0.2\<close> and below its
  binary32 value: the Python and Numba functions stay in state 1, the Cython function
  moves to state 0.
\<close>

theorem compute_series_cy_differs:
  "compute_series 2 [1/2, 214748365 / 2 ^ 30] = Inr [1, 1] \<and>
   compute_series_numba 2 [1/2, 214748365 / 2 ^ 30] = Inr [1, 1] \<and>
   compute_series_cy 2 [1/2, 214748365 / 2 ^ 30] = Inr [1, 0]"
  by (simp add: compute_series_def compute_series_numba_def compute_series_cy_def
      series_loop_def series_step_def module_q_def cy_q_def numeral_2_eq_2)

subsection \<open>The linear solver is sound and complete\<close>


lemma argmax_abs_less: "col \<noteq> [] \<Longrightarrow> argmax_abs col < length col"
  by (induction col rule: argmax_abs.induct) (auto simp: Let_def)

lemma argmax_abs_max: "a \<in> set col \<Longrightarrow> \<bar>a\<bar> \<le> \<bar>col ! argmax_abs col\<bar>"
  by (induction col rule: argmax_abs.induct) (auto simp: Let_def)


lemma dot_Nil [simp]: "dot [] y = 0" "dot x [] = 0"
  by (simp_all add: dot_def)

lemma dot_Cons [simp]: "dot (a # x) (b # y) = a * b + dot x y"
  by (simp add: dot_def)

lemma dot_elim:
  "length as = length ps \<Longrightarrow> length ps = length xs \<Longrightarrow>
   dot (map2 (\<lambda>a b. a - f * b) as ps) xs = dot as xs - f * dot ps xs"
  by (induction as ps xs rule: list_induct3) (auto simp: algebra_simps)

lemma swap_rows_length [simp]: "length (swap_rows k eqs) = length eqs"
  by (simp add: swap_rows_def)

lemma swap_rows_set: "k < length eqs \<Longrightarrow> set (swap_rows k eqs) = set eqs"
proof -
  assume k: "k < length eqs"
  then have "0 < length eqs" by auto
  from set_swap [OF this k] show ?thesis by (simp only: swap_rows_def)
qed

lemma swap_rows_Nil [simp]: "swap_rows k eqs = [] \<longleftrightarrow> eqs = []"
  by (simp add: swap_rows_def)

lemma swap_rows_hd: "k < length eqs \<Longrightarrow> hd (swap_rows k eqs) = eqs ! k"
  unfolding swap_rows_def by (cases eqs; cases k) (auto simp: hd_conv_nth)

lemma system_step:
  assumes "system (Suc m) eqs" and "k < Suc m"
  shows "system m (map (eliminate (hd (swap_rows k eqs))) (tl (swap_rows k eqs)))"
proof -
  let ?sw = "swap_rows k eqs"
  have len: "length ?sw = Suc m" using assms by (simp add: system_def)
  have ne: "?sw \<noteq> []" using assms by (auto simp: system_def)
  have all: "\<forall>eq \<in> set ?sw. length (fst eq) = Suc m"
    using assms by (simp add: swap_rows_set system_def)
  have pv: "length (fst (hd ?sw)) = Suc m" using all ne by simp
  have "\<forall>eq \<in> set (tl ?sw). length (fst eq) = Suc m"
    using all ne by (metis list.set_sel(2))
  then show ?thesis
    using len pv by (auto simp: system_def eliminate_def Let_def)
qed

lemma solves_step:
  assumes eq: "length (fst eq) = Suc m" and pv: "length (fst pv) = Suc m"
    and xs: "length xs = m" and p0: "hd (fst pv) \<noteq> 0"
    and red: "dot (fst (eliminate pv eq)) xs = snd (eliminate pv eq)"
  shows "dot (fst eq) ((snd pv - dot (tl (fst pv)) xs) / hd (fst pv) # xs) = snd eq"
proof -
  obtain a as where c: "fst eq = a # as" and las: "length as = m"
    using eq by (cases "fst eq") auto
  obtain p ps where d: "fst pv = p # ps" and lps: "length ps = m"
    using pv by (cases "fst pv") auto
  from p0 d have p: "p \<noteq> 0" by simp
  have "dot (map2 (\<lambda>a' b. a' - a / p * b) as ps) xs = dot as xs - a / p * dot ps xs"
    using las lps xs by (intro dot_elim) simp_all
  moreover have "fst (eliminate pv eq) = map2 (\<lambda>a' b. a' - a / p * b) as ps"
    and "snd (eliminate pv eq) = snd eq - a / p * snd pv"
    by (simp_all add: eliminate_def c d)
  ultimately have "dot as xs - a / p * dot ps xs = snd eq - a / p * snd pv"
    using red by simp
  then show ?thesis using p by (simp add: c d field_simps)
qed

lemma gauss_sound:
  "system (length eqs) eqs \<Longrightarrow> gauss eqs = Some x \<Longrightarrow>
   length x = length eqs \<and> (\<forall>eq \<in> set eqs. dot (fst eq) x = snd eq)"
proof (induction eqs arbitrary: x rule: gauss.induct)
  case (1 eqs)
  show ?case
  proof (cases "eqs = []")
    case True
    with "1.prems" show ?thesis by (simp add: gauss.simps)
  next
    case False
    define k where "k = argmax_abs (map (\<lambda>eq. hd (fst eq)) eqs)"
    define sw where "sw = swap_rows k eqs"
    define pv where "pv = hd sw"
    obtain m where m: "length eqs = Suc m" using False by (cases eqs) auto
    have k: "k < Suc m" using argmax_abs_less [of "map (\<lambda>eq. hd (fst eq)) eqs"] False m
      by (simp add: k_def)
    have p0: "hd (fst pv) \<noteq> 0"
      using "1.prems"(2) False by (subst (asm) gauss.simps) (auto simp: Let_def k_def sw_def pv_def split: if_splits)
    from "1.prems"(2) False p0 obtain xs where
      xs: "gauss (map (eliminate pv) (tl sw)) = Some xs"
      and x: "x = (snd pv - dot (tl (fst pv)) xs) / hd (fst pv) # xs"
      by (subst (asm) gauss.simps) (auto simp: Let_def k_def sw_def pv_def split: option.splits)
    have sys: "system m (map (eliminate pv) (tl sw))"
      using system_step [of m eqs k] "1.prems"(1) k m by (simp add: sw_def pv_def)
    then have lenr: "length (map (eliminate pv) (tl sw)) = m" by (simp add: system_def)
    have IH: "length xs = m \<and> (\<forall>eq \<in> set (map (eliminate pv) (tl sw)). dot (fst eq) xs = snd eq)"
      using "1.IH" [OF False k_def sw_def pv_def p0 _ xs] sys lenr by simp
    have sweq: "set sw = set eqs" using k m by (simp add: sw_def swap_rows_set)
    have swne: "sw \<noteq> []" using m by (auto simp: sw_def)
    have all: "\<forall>eq \<in> set sw. length (fst eq) = Suc m"
      using "1.prems"(1) m sweq by (simp add: system_def)
    have pvl: "length (fst pv) = Suc m" using all swne by (simp add: pv_def)
    have "dot (fst eq) x = snd eq" if "eq \<in> set eqs" for eq
    proof -
      from that sweq swne have "eq = pv \<or> eq \<in> set (tl sw)"
        by (cases sw) (auto simp: pv_def)
      then show ?thesis
      proof
        assume "eq = pv"
        obtain p ps where d: "fst pv = p # ps" using pvl by (cases "fst pv") auto
        with p0 show ?thesis using \<open>eq = pv\<close> by (simp add: x d)
      next
        assume mem: "eq \<in> set (tl sw)"
        then have "eq \<in> set sw" using swne by (metis list.set_sel(2))
        then have l: "length (fst eq) = Suc m" using all by simp
        from mem IH have "dot (fst (eliminate pv eq)) xs = snd (eliminate pv eq)" by simp
        from solves_step [OF l pvl _ p0 this] IH show ?thesis by (simp add: x)
      qed
    qed
    then show ?thesis using IH m by (simp add: x)
  qed
qed



lemma dot_scale_right: "dot ps (map ((*) c) xs) = c * dot ps xs"
  by (induction ps arbitrary: xs) (case_tac xs; simp add: algebra_simps)+

lemma dot_zeros [simp]: "dot as (replicate m 0) = 0"
  by (induction as arbitrary: m) (case_tac m; simp)+

lemma scale_rhs_sel [simp]: "fst (scale_rhs c eq) = fst eq" "snd (scale_rhs c eq) = c * snd eq"
  by (simp_all add: scale_rhs_def)

lemma eliminate_scale:
  "eliminate (scale_rhs c pv) (scale_rhs c eq) = scale_rhs c (eliminate pv eq)"
  by (simp add: eliminate_def scale_rhs_def Let_def algebra_simps)

lemma swap_rows_map: "k < length eqs \<Longrightarrow> swap_rows k (map f eqs) = map f (swap_rows k eqs)"
proof -
  assume k: "k < length eqs"
  then have "map f eqs ! 0 = f (eqs ! 0)" by (cases eqs) auto
  with k show ?thesis by (simp add: swap_rows_def map_update)
qed

lemma gauss_scale:
  "gauss (map (scale_rhs c) eqs) = map_option (map ((*) c)) (gauss eqs)"
proof (induction eqs rule: gauss.induct)
  case (1 eqs)
  show ?case
  proof (cases "eqs = []")
    case True
    then show ?thesis by (simp add: gauss.simps)
  next
    case False
    define k where "k = argmax_abs (map (\<lambda>eq. hd (fst eq)) eqs)"
    define sw where "sw = swap_rows k eqs"
    define pv where "pv = hd sw"
    have k: "k < length eqs"
      using argmax_abs_less [of "map (\<lambda>eq. hd (fst eq)) eqs"] False by (simp add: k_def)
    have col: "map (\<lambda>eq. hd (fst eq)) (map (scale_rhs c) eqs) = map (\<lambda>eq. hd (fst eq)) eqs"
      by (simp add: scale_rhs_def)
    have sw': "swap_rows k (map (scale_rhs c) eqs) = map (scale_rhs c) sw"
      using k by (simp add: swap_rows_map sw_def)
    have swne: "sw \<noteq> []" using False by (simp add: sw_def)
    have pv': "hd (map (scale_rhs c) sw) = scale_rhs c pv"
      using swne by (simp add: pv_def hd_map)
    have rest: "map (eliminate (scale_rhs c pv)) (tl (map (scale_rhs c) sw))
        = map (scale_rhs c) (map (eliminate pv) (tl sw))"
      by (simp add: map_tl eliminate_scale comp_def)
    have unfold_l: "gauss (map (scale_rhs c) eqs) =
        (if hd (fst pv) = 0 then None
         else case gauss (map (scale_rhs c) (map (eliminate pv) (tl sw))) of None \<Rightarrow> None
              | Some xs \<Rightarrow> Some ((c * snd pv - dot (tl (fst pv)) xs) / hd (fst pv) # xs))"
      apply (subst gauss.simps)
      apply (simp only: Let_def col k_def [symmetric] sw' pv' rest scale_rhs_sel)
      apply (simp add: False)
      done
    have unfold_r: "gauss eqs =
        (if hd (fst pv) = 0 then None
         else case gauss (map (eliminate pv) (tl sw)) of None \<Rightarrow> None
              | Some xs \<Rightarrow> Some ((snd pv - dot (tl (fst pv)) xs) / hd (fst pv) # xs))"
      apply (subst gauss.simps)
      apply (simp only: Let_def k_def [symmetric] sw_def [symmetric] pv_def [symmetric])
      apply (simp add: False)
      done
    show ?thesis
    proof (cases "hd (fst pv) = 0")
      case True
      then show ?thesis by (simp add: unfold_l unfold_r)
    next
      case p0: False
      note IH = "1.IH" [OF False k_def sw_def pv_def p0]
      show ?thesis
      proof (cases "gauss (map (eliminate pv) (tl sw))")
        case None
        with p0 IH show ?thesis by (simp only: unfold_l unfold_r) simp
      next
        case (Some xs)
        have "(c * snd pv - dot (tl (fst pv)) (map ((*) c) xs)) / hd (fst pv)
            = c * ((snd pv - dot (tl (fst pv)) xs) / hd (fst pv))"
          by (simp add: dot_scale_right right_diff_distrib)
        with p0 IH Some show ?thesis by (simp only: unfold_l unfold_r) simp
      qed
    qed
  qed
qed

lemma eliminate_fst_zero_rhs:
  "fst (eliminate (fst pv, 0) (fst eq, 0)) = fst (eliminate pv eq)"
  "snd (eliminate (fst pv, 0) (fst eq, 0)) = 0"
  by (simp_all add: eliminate_def Let_def)

lemma gauss_complete:
  "system (length eqs) eqs \<Longrightarrow> kernel_trivial eqs \<Longrightarrow> gauss eqs \<noteq> None"
proof (induction eqs rule: gauss.induct)
  case (1 eqs)
  show ?case
  proof (cases "eqs = []")
    case True
    then show ?thesis by (simp add: gauss.simps)
  next
    case False
    define col where "col = map (\<lambda>eq. hd (fst eq)) eqs"
    define k where "k = argmax_abs col"
    define sw where "sw = swap_rows k eqs"
    define pv where "pv = hd sw"
    obtain m where m: "length eqs = Suc m" using False by (cases eqs) auto
    have k: "k < Suc m" using argmax_abs_less [of col] False m by (simp add: k_def col_def)
    have sweq: "set sw = set eqs" using k m by (simp add: sw_def swap_rows_set)
    have swne: "sw \<noteq> []" using False by (simp add: sw_def)
    have all: "\<forall>eq \<in> set eqs. length (fst eq) = Suc m"
      using "1.prems"(1) m by (simp add: system_def)
    have pveq: "pv = eqs ! k" using k m by (simp add: pv_def sw_def swap_rows_hd)
    have pvl: "length (fst pv) = Suc m" using all k m by (simp add: pveq)
    have p0: "hd (fst pv) \<noteq> 0"
    proof
      assume z: "hd (fst pv) = 0"
      have colk: "col ! k = 0" using z k m by (simp add: col_def pveq)
      have heads: "hd (fst eq) = 0" if "eq \<in> set eqs" for eq
      proof -
        from that have "hd (fst eq) \<in> set col" by (auto simp: col_def)
        from argmax_abs_max [OF this] colk show ?thesis by (simp add: k_def)
      qed
      let ?x = "1 # replicate m (0::real)"
      have "dot (fst eq) ?x = 0" if "eq \<in> set eqs" for eq
      proof -
        from that all obtain a as where c: "fst eq = a # as" by (cases "fst eq") auto
        with heads [OF that] show ?thesis by simp
      qed
      with "1.prems"(2) m have "?x = zeros (Suc m)" by (simp add: kernel_trivial_def)
      then show False by (simp add: zeros_def)
    qed
    have sys: "system m (map (eliminate pv) (tl sw))"
      using system_step [of m eqs k] "1.prems"(1) k m by (simp add: sw_def pv_def)
    then have lenr: "length (map (eliminate pv) (tl sw)) = m" by (simp add: system_def)
    have ker: "kernel_trivial (map (eliminate pv) (tl sw))"
      unfolding kernel_trivial_def
    proof (intro allI impI, elim conjE)
      fix ys
      assume ly: "length ys = length (map (eliminate pv) (tl sw))"
        and ys: "\<forall>eq \<in> set (map (eliminate pv) (tl sw)). dot (fst eq) ys = 0"
      from ly lenr have lys: "length ys = m" by simp
      let ?y = "(0 - dot (tl (fst pv)) ys) / hd (fst pv) # ys"
      have "dot (fst eq) ?y = 0" if "eq \<in> set eqs" for eq
      proof -
        from that sweq swne have "eq = pv \<or> eq \<in> set (tl sw)"
          by (cases sw) (auto simp: pv_def)
        then show ?thesis
        proof
          assume "eq = pv"
          obtain p ps where d: "fst pv = p # ps" using pvl by (cases "fst pv") auto
          with p0 show ?thesis using \<open>eq = pv\<close> by (simp add: d)
        next
          assume mem: "eq \<in> set (tl sw)"
          then have "eq \<in> set sw" using swne by (metis list.set_sel(2))
          then have l: "length (fst eq) = Suc m" using all sweq by simp
          from mem ys have "dot (fst (eliminate pv eq)) ys = 0" by simp
          then have "dot (fst (eliminate (fst pv, 0) (fst eq, 0))) ys = snd (eliminate (fst pv, 0) (fst eq, 0))"
            by (simp add: eliminate_fst_zero_rhs)
          from solves_step [of "(fst eq, 0)" m "(fst pv, 0)" ys, OF _ _ lys _ this] l pvl p0
          show ?thesis by simp
        qed
      qed
      with "1.prems"(2) m lys have "?y = zeros (Suc m)" by (simp add: kernel_trivial_def)
      then show "ys = zeros (length (map (eliminate pv) (tl sw)))"
        using lenr by (simp add: zeros_def)
    qed
    have "gauss (map (eliminate pv) (tl sw)) \<noteq> None"
      using "1.IH" [OF False _ sw_def pv_def p0] sys lenr ker by (simp add: k_def col_def)
    with p0 False show ?thesis
      by (subst gauss.simps)
        (auto simp: Let_def k_def [symmetric] col_def [symmetric] sw_def [symmetric] pv_def [symmetric])
  qed
qed


lemma system_zip:
  assumes "has_shape a n n" and "length b = n"
  shows "system (length (zip a b)) (zip a b)"
  using assms by (auto simp: system_def has_shape_def list_all_iff dest: set_zip_leftD)

lemma solves_zip:
  assumes "length a = length b"
  shows "(\<forall>eq \<in> set (zip a b). dot (fst eq) x = snd eq) \<longleftrightarrow> matvec a x = b"
proof
  assume h: "\<forall>eq \<in> set (zip a b). dot (fst eq) x = snd eq"
  show "matvec a x = b"
  proof (rule nth_equalityI)
    show "length (matvec a x) = length b" using assms by (simp add: matvec_def)
  next
    fix i assume "i < length (matvec a x)"
    then have i: "i < length a" by (simp add: matvec_def)
    with assms have "(a ! i, b ! i) \<in> set (zip a b)" by (auto simp: set_zip)
    with h have "dot (a ! i) x = b ! i" by force
    with i show "matvec a x ! i = b ! i" by (simp add: matvec_def)
  qed
next
  assume "matvec a x = b"
  then show "\<forall>eq \<in> set (zip a b). dot (fst eq) x = snd eq"
    by (auto simp: set_zip matvec_def)
qed

lemma solve_sound:
  assumes "solve a b = Inr x"
  shows "length x = length a \<and> matvec a x = b"
proof -
  from assms have sh: "has_shape a (length a) (length a)" and lb: "length b = length a"
    and g: "gauss (zip a b) = Some x"
    by (auto simp: solve_def split: if_splits option.splits)
  from gauss_sound [OF system_zip [OF sh lb] g] lb
  show ?thesis by (simp add: solves_zip)
qed

lemma solve_complete:
  assumes sh: "has_shape a n n" and lb: "length b = n" and ns: "nonsingular a"
  shows "\<exists>x. solve a b = Inr x"
proof -
  have la: "length a = n" using sh by (simp add: has_shape_def)
  have "kernel_trivial (zip a b)"
    unfolding kernel_trivial_def
  proof (intro allI impI, elim conjE)
    fix x
    assume lx: "length x = length (zip a b)"
      and k: "\<forall>eq \<in> set (zip a b). dot (fst eq) x = 0"
    have "\<forall>eq \<in> set (zip a (zeros n)). dot (fst eq) x = snd eq"
    proof
      fix eq assume "eq \<in> set (zip a (zeros n))"
      then obtain i where i: "i < n" and eq: "eq = (a ! i, 0)"
        using la by (auto simp: set_zip zeros_def)
      with la lb have "(a ! i, b ! i) \<in> set (zip a b)" by (auto simp: set_zip)
      with k eq show "dot (fst eq) x = snd eq" by force
    qed
    then have "matvec a x = zeros n"
      using solves_zip [of a "zeros n" x] la by (simp add: zeros_def)
    with ns lx la lb show "x = zeros (length (zip a b))" by (simp add: nonsingular_def)
  qed
  from gauss_complete [OF system_zip [OF sh lb] this] sh la lb
  show ?thesis by (auto simp: solve_def)
qed

lemma solve_scale:
  "solve a (map ((*) c) b) = (case solve a b of Inl e \<Rightarrow> Inl e | Inr x \<Rightarrow> Inr (map ((*) c) x))"
proof -
  have "zip a (map ((*) c) b) = map (scale_rhs c) (zip a b)"
    by (simp add: zip_map2 scale_rhs_def case_prod_beta)
  then show ?thesis
    by (simp add: solve_def gauss_scale split: option.splits)
qed

lemma matvec_scale: "matvec M (map ((*) c) x) = map ((*) c) (matvec M x)"
  by (simp add: matvec_def dot_scale_right)

lemma length_matvec [simp]: "length (matvec M x) = length M"
  by (simp add: matvec_def)

lemma has_shape_system_matrix:
  assumes "has_shape M n n"
  shows "has_shape (mat_sub (identity n) (smult c M)) n n"
  using assms by (auto simp: has_shape_def mat_sub_def identity_def smult_def list_all_length)

lemma P_tilde_shape:
  assumes "valid_model apm" and "P_tilde apm = Inr Pt"
  shows "has_shape Pt (apm_n apm) (apm_n apm)"
proof -
  from assms(2) obtain yp where
    yp: "np_power (mc_state_values (apm_mc apm)) (1 - apm_gamma apm) = Inr yp"
    by (auto simp: P_tilde_def Let_def split: sum.splits)
  from assms(1) have sh: "has_shape (mc_P (apm_mc apm)) (apm_n apm) (apm_n apm)"
    and l: "length (mc_state_values (apm_mc apm)) = apm_n apm"
    by (simp_all add: valid_model_def)
  from P_tilde_matching [OF sh l yp] assms(2) show ?thesis by simp
qed

subsection \<open>The tree price\<close>


lemma dot_scale_left: "dot (map ((*) c) row) x = c * dot row x"
  by (induction row arbitrary: x) (case_tac x; simp add: algebra_simps)+

lemma matvec_smult: "matvec (smult c M) x = map ((*) c) (matvec M x)"
  by (simp add: matvec_def smult_def dot_scale_left)

text \<open>
  C1. For a valid model (a discount factor in \<open>(0, 1)\<close>, a square stochastic transition
  matrix, as many state values as states, of either sign) whose matrix
  \<open>I - beta * P_tilde\<close> is nonsingular, \<open>tree_price\<close> returns a vector \<open>v\<close> of length
  \<open>n\<close> with \<open>(I - beta * P_tilde) @ v = beta * P_tilde @ ones(n)\<close>, exactly.
\<close>

theorem tree_price_solves_system:
  assumes v: "valid_model apm" and Pt: "P_tilde apm = Inr Pt"
    and ns: "nonsingular (mat_sub (identity (apm_n apm)) (smult (apm_beta apm) Pt))"
  shows "\<exists>v. tree_price apm = Inr v \<and> length v = apm_n apm \<and>
           matvec (mat_sub (identity (apm_n apm)) (smult (apm_beta apm) Pt)) v =
             matvec (smult (apm_beta apm) Pt) (ones (apm_n apm))"
proof -
  let ?n = "apm_n apm" and ?beta = "apm_beta apm"
  let ?A = "mat_sub (identity ?n) (smult ?beta Pt)"
  from P_tilde_shape [OF v Pt] have sh: "has_shape Pt ?n ?n" .
  have shA: "has_shape ?A ?n ?n" by (rule has_shape_system_matrix [OF sh])
  have lb: "length (matvec Pt (ones ?n)) = ?n" using sh by (simp add: has_shape_def)
  from solve_complete [OF shA lb ns] obtain x where x: "solve ?A (matvec Pt (ones ?n)) = Inr x" ..
  from solve_sound [OF x] have lx: "length x = ?n" and Ax: "matvec ?A x = matvec Pt (ones ?n)"
    using shA by (simp_all add: has_shape_def)
  have tp: "tree_price apm = Inr (map ((*) ?beta) x)"
    using Pt sh x by (simp add: tree_price_def)
  have "matvec ?A (map ((*) ?beta) x) = matvec (smult ?beta Pt) (ones ?n)"
    by (simp add: matvec_scale Ax matvec_smult)
  with tp lx show ?thesis by simp
qed

lemma nonsingular_2x2_example: "nonsingular [[9/8, -1/4], [1/16, 5/8]]"
  unfolding nonsingular_def
proof (intro allI impI, elim conjE)
  fix x :: "real list"
  assume l: "length x = length [[9/8, -1/4], [1/16, 5/8 :: real]]"
    and k: "matvec [[9/8, -1/4], [1/16, 5/8]] x = zeros (length [[9/8, -1/4], [1/16, 5/8 :: real]])"
  from l obtain a b where x: "x = [a, b]"
    by (cases x; cases "tl x") auto
  from k have "9/8 * a - 1/4 * b = 0" and "1/16 * a + 5/8 * b = 0"
    by (simp_all add: x matvec_def zeros_def dot_def numeral_2_eq_2)
  then have "a = 0 \<and> b = 0" by argo
  then show "x = zeros (length [[9/8, -1/4], [1/16, 5/8 :: real]])"
    by (simp add: x zeros_def numeral_2_eq_2)
qed

lemma apm_mixed_P_tilde: "P_tilde apm_mixed = Inr [[- (1/4), 1/2], [- (1/8), 3/4]]"
  by (simp add: apm_mixed_def P_tilde_def broadcast_mul_def ncols_def float_pow_def
      floor_minus_one_real power_int_minus)

text \<open>
  The theorem at a model with the state values \<open>[-2, 1]\<close> and \<open>gamma = 2\<close>, whose kernel
  \<open>P_tilde\<close> has a negative column.
\<close>

theorem tree_price_solves_system_witness:
  "valid_model apm_mixed \<and>
   P_tilde apm_mixed = Inr [[- (1/4), 1/2], [- (1/8), 3/4]] \<and>
   nonsingular (mat_sub (identity 2) (smult (1/2) [[- (1/4), 1/2], [- (1/8), 3/4]])) \<and>
   (\<exists>v. tree_price apm_mixed = Inr v \<and> length v = 2 \<and>
        matvec (mat_sub (identity 2) (smult (1/2) [[- (1/4), 1/2], [- (1/8), 3/4]])) v =
          matvec (smult (1/2) [[- (1/4), 1/2], [- (1/8), 3/4]]) (ones 2))"
proof -
  have v: "valid_model apm_mixed" by (simp add: valid_model_def apm_mixed_def has_shape_def)
  have n: "apm_n apm_mixed = 2" and b: "apm_beta apm_mixed = 1/2" by (simp_all add: apm_mixed_def)
  have A: "mat_sub (identity 2) (smult (1/2) [[- (1/4), 1/2], [- (1/8), 3/4]]) = [[9/8, -1/4], [1/16, 5/8]]"
    by (simp add: mat_sub_def identity_def smult_def numeral_2_eq_2)
  have ns: "nonsingular (mat_sub (identity (apm_n apm_mixed))
      (smult (apm_beta apm_mixed) [[- (1/4), 1/2], [- (1/8), 3/4]]))"
    using nonsingular_2x2_example A by (simp only: n b)
  from tree_price_solves_system [OF v apm_mixed_P_tilde ns] v apm_mixed_P_tilde ns
  show ?thesis by (simp only: n b)
qed

subsection \<open>The consol price\<close>

lemma consol_price_scale:
  "consol_price apm (k * c) =
     (case consol_price apm c of Inl e \<Rightarrow> Inl e | Inr p \<Rightarrow> Inr (map ((*) k) p))"
proof (cases "P_check apm")
  case (Inl e)
  then show ?thesis by (simp add: consol_price_def)
next
  case (Inr Pc)
  let ?n = "apm_n apm" and ?beta = "apm_beta apm"
  let ?A = "mat_sub (identity ?n) (smult ?beta Pc)"
  have "map ((*) (k * c)) (ones ?n) = map ((*) k) (map ((*) c) (ones ?n))"
    by (simp add: ones_def)
  then have rhs: "matvec Pc (map ((*) (k * c)) (ones ?n)) = map ((*) k) (matvec Pc (map ((*) c) (ones ?n)))"
    by (simp only: matvec_scale)
  show ?thesis
  proof (cases "has_shape Pc ?n ?n")
    case False
    with Inr show ?thesis by (simp add: consol_price_def)
  next
    case True
    show ?thesis
    proof (cases "solve ?A (matvec Pc (map ((*) c) (ones ?n)))")
      case l: (Inl e)
      with Inr True show ?thesis by (simp add: consol_price_def rhs solve_scale)
    next
      case r: (Inr x)
      with Inr True show ?thesis
        by (simp add: consol_price_def rhs solve_scale mult.left_commute)
    qed
  qed
qed

text \<open>
  C5. Doubling the coupon doubles the consol price; when \<open>consol_price\<close> raises for
  the coupon \<open>c\<close> it raises the same error for \<open>2 * c\<close>.
\<close>

theorem consol_price_linear:
  "consol_price apm (2 * c) =
     (case consol_price apm c of Inl e \<Rightarrow> Inl e | Inr p \<Rightarrow> Inr (map ((*) 2) p))"
  by (rule consol_price_scale)

theorem consol_price_linear_witness:
  "consol_price \<lparr>apm_beta = 1/2, apm_mc = \<lparr>mc_P = [[1/2, 1/2], [1/4, 3/4]], mc_state_values = [1, 1]\<rparr>,
            apm_gamma = 2, apm_n = 2\<rparr> 3 = Inr [3, 3] \<and>
   consol_price \<lparr>apm_beta = 1/2, apm_mc = \<lparr>mc_P = [[1/2, 1/2], [1/4, 3/4]], mc_state_values = [1, 1]\<rparr>,
            apm_gamma = 2, apm_n = 2\<rparr> (2 * 3) = Inr [6, 6]"
proof -
  let ?apm = "\<lparr>apm_beta = 1/2, apm_mc = \<lparr>mc_P = [[1/2, 1/2], [1/4, 3/4]], mc_state_values = [1, 1]\<rparr>,
            apm_gamma = 2, apm_n = 2\<rparr>"
  have c: "consol_price ?apm 3 = Inr [3, 3]"
    by (simp add: consol_price_def P_check_def broadcast_mul_def ncols_def float_pow_def has_shape_def
        solve_def mat_sub_def identity_def smult_def matvec_def ones_def dot_def numeral_2_eq_2
        gauss.simps Let_def swap_rows_def eliminate_def)
  with consol_price_linear [of ?apm 3] show ?thesis by simp
qed

subsection \<open>The worked example\<close>


lemma upt5: "[0..<5] = [0,1,2,3,4]"
  by (simp add: upt_rec)

lemma example_P_value:
  "example_P = [[19/20, 1/80, 1/80, 1/80, 1/80],
                [1/80, 19/20, 1/80, 1/80, 1/80],
                [1/80, 1/80, 19/20, 1/80, 1/80],
                [1/80, 1/80, 1/80, 19/20, 1/80],
                [1/80, 1/80, 1/80, 1/80, 19/20]]"
  by (simp add: example_P_def mat_add_def smult_def ones2_def diag_def ones_def upt5 eval_nat_numeral)

lemma example_P_tilde:
  "P_tilde example_apm = Inr
     [[19/21, 1/82, 1/80, 1/78, 1/76],
      [1/84, 38/41, 1/80, 1/78, 1/76],
      [1/84, 1/82, 19/20, 1/78, 1/76],
      [1/84, 1/82, 1/80, 38/39, 1/76],
      [1/84, 1/82, 1/80, 1/78, 1]]"
  by (simp add: P_tilde_def example_apm_def example_mc_def example_P_value example_s_def
      broadcast_mul_def ncols_def float_pow_def powr_minus_divide)

lemma ones5: "ones 5 = [1, 1, 1, 1, 1]"
  by (simp add: ones_def eval_nat_numeral)

lemma example_tree_price:
  "tree_price example_apm =
     Inr [11698817/919558, 27081259/1839116, 8078971/459779, 40342309/1839116, 27103067/919558]"
  by (simp add: tree_price_def example_P_tilde)
    (simp add: example_apm_def has_shape_def solve_def
      mat_sub_def identity_def smult_def upt5 matvec_def dot_def ones5
      gauss.simps Let_def swap_rows_def eliminate_def)


text \<open>
  C2 (as the code has it). The parameter cell builds the matrix with \<open>0.95\<close> on the
  diagonal and \<open>0.0125\<close> elsewhere; for this model \<open>tree_price\<close> returns a
  vector within \<open>0.001\<close> of \<open>[12.722, 14.725, 17.571, 21.936, 29.474]\<close> (the
  exact solution is within \<open>0.0005\<close> of it, which leaves room for the rounding of the
  floating-point run).
\<close>

theorem example_tree_price_close:
  "AssetPriceModel 0.94 example_mc 2.0 = Inr example_apm \<and>
   mc_P example_mc = diag_offdiag 5 0.95 0.0125 \<and>
   (\<exists>v. tree_price example_apm = Inr v \<and> close_to 0.001 v [12.722, 14.725, 17.571, 21.936, 29.474] \<and>
        close_to 0.0005 v [12.722, 14.725, 17.571, 21.936, 29.474])"
proof -
  have 1: "AssetPriceModel 0.94 example_mc 2.0 = Inr example_apm"
    by (simp add: AssetPriceModel_def example_apm_def example_mc_def example_P_value)
  have 2: "mc_P example_mc = diag_offdiag 5 0.95 0.0125"
    by (simp add: example_mc_def example_P_value diag_offdiag_def upt5)
  have 3: "close_to 0.001
      [11698817/919558, 27081259/1839116, 8078971/459779, 40342309/1839116, 27103067/919558]
      [12.722, 14.725, 17.571, 21.936, 29.474]"
    by (simp add: close_to_def)
  have 4: "close_to 0.0005
      [11698817/919558, 27081259/1839116, 8078971/459779, 40342309/1839116, 27103067/919558]
      [12.722, 14.725, 17.571, 21.936, 29.474]"
    by (simp add: close_to_def)
  from 1 2 3 4 example_tree_price show ?thesis by blast
qed

lemma claimed_P_tilde:
  "P_tilde claimed_apm = Inr
     [[25/28, 1/82, 1/80, 1/78, 1/76],
      [1/84, 75/82, 1/80, 1/78, 1/76],
      [1/84, 1/82, 15/16, 1/78, 1/76],
      [1/84, 1/82, 1/80, 25/26, 1/76],
      [1/84, 1/82, 1/80, 1/78, 75/76]]"
  by (simp add: P_tilde_def claimed_apm_def diag_offdiag_def upt5 example_s_def
      broadcast_mul_def ncols_def float_pow_def powr_minus_divide)

lemma claimed_tree_price:
  "tree_price claimed_apm =
     Inr [10562068360733/1019263811467, 12103940711633/1019263811467, 14236568752533/1019263811467,
          17379920983433/1019263811467, 22475665904333/1019263811467]"
  by (simp add: tree_price_def claimed_P_tilde)
    (simp add: claimed_apm_def has_shape_def solve_def
      mat_sub_def identity_def smult_def upt5 matvec_def dot_def ones5
      gauss.simps Let_def swap_rows_def eliminate_def)

text \<open>
  With \<open>0.9375\<close> on the diagonal the matrix is not the one of the parameter cell,
  and \<open>tree_price\<close> returns a vector whose entries are more than two away from
  those figures.
\<close>

theorem claimed_matrix_tree_price_far:
  "mc_P example_mc \<noteq> mc_P (apm_mc claimed_apm) \<and>
   tree_price claimed_apm =
     Inr [10562068360733/1019263811467, 12103940711633/1019263811467, 14236568752533/1019263811467,
          17379920983433/1019263811467, 22475665904333/1019263811467] \<and>
   \<not> close_to 0.001 [10562068360733/1019263811467, 12103940711633/1019263811467, 14236568752533/1019263811467,
          17379920983433/1019263811467, 22475665904333/1019263811467]
        [12.722, 14.725, 17.571, 21.936, 29.474]"
proof -
  have 1: "mc_P example_mc \<noteq> mc_P (apm_mc claimed_apm)"
    by (simp add: example_mc_def example_P_value claimed_apm_def diag_offdiag_def upt5)
  have 2: "\<not> close_to 0.001 [10562068360733/1019263811467, 12103940711633/1019263811467, 14236568752533/1019263811467,
          17379920983433/1019263811467, 22475665904333/1019263811467]
        [12.722, 14.725, 17.571, 21.936, 29.474]"
    by (simp add: close_to_def)
  from 1 2 claimed_tree_price show ?thesis by blast
qed

subsection \<open>The loop of the call option\<close>

lemma while_invariant:
  assumes "call_option_while beta Pc v_bar p_s T epsilon s = Some r"
    and "\<And>s s1. Inv s \<Longrightarrow> epsilon < ls_error s \<Longrightarrow>
                 call_option_body beta Pc v_bar p_s T s = Inr s1 \<Longrightarrow> Inv s1"
    and "Inv s" and "r = Inr s'"
  shows "Inv s' \<and> ls_error s' \<le> epsilon"
  using assms
proof (induction beta Pc v_bar p_s T epsilon s r arbitrary: s' rule: call_option_while.raw_induct [rotated 1, consumes 1])
  case (1 while beta Pc v_bar p_s T epsilon s r)
  show ?case
  proof (cases "epsilon < ls_error s")
    case False
    with "1.hyps" "1.prems"(2,3) show ?thesis by simp
  next
    case True
    with "1.hyps" "1.prems"(3) obtain s1 where b: "call_option_body beta Pc v_bar p_s T s = Inr s1"
      and w: "while beta Pc v_bar p_s T epsilon s1 = Some r"
      by (auto split: sum.splits)
    from "1.prems"(1) [OF "1.prems"(2) True b] have "Inv s1" .
    from "1.IH" [OF w "1.prems"(1) this "1.prems"(3)] show ?thesis by simp
  qed
qed

lemma call_option_body_fields:
  assumes "call_option_body beta Pc v_bar p_s T s = Inr s1"
  shows "ls_t s1 = ls_t s + 1"
    and "ls_w_bars s1 = (if ls_t s \<in> set T then (ls_w_bars s)(ls_t s \<mapsto> ls_w_bar s) else ls_w_bars s)"
    and "ls_w_bar s1 = map2 max (map ((*) beta) (matvec Pc (ls_w_bar s))) (map (\<lambda>v. v - p_s) v_bar)"
  using assms
  by (auto simp: call_option_body_def amax_vstack_def Let_def split: sum.splits if_splits)

lemma call_option_while_first:
  "call_option_while beta Pc v_bar p_s T epsilon
     \<lparr>ls_w_bar = w, ls_error = epsilon + 1, ls_t = t, ls_w_bars = m\<rparr> =
   (case call_option_body beta Pc v_bar p_s T \<lparr>ls_w_bar = w, ls_error = epsilon + 1, ls_t = t, ls_w_bars = m\<rparr> of
      Inl e \<Rightarrow> Some (Inl e)
    | Inr s' \<Rightarrow> call_option_while beta Pc v_bar p_s T epsilon s')"
  by (subst call_option_while.simps) simp

text \<open>What a completed run consists of.\<close>

lemma call_option_run_cases:
  assumes "call_option_run apm zeta p_s T epsilon = Some (Inr s)"
  obtains Pc v_bar s1 where "P_check apm = Inr Pc" and "consol_price apm zeta = Inr v_bar"
    and "call_option_body (apm_beta apm) Pc v_bar p_s T
           \<lparr>ls_w_bar = zeros (apm_n apm), ls_error = epsilon + 1, ls_t = 0, ls_w_bars = Map.empty\<rparr> = Inr s1"
    and "call_option_while (apm_beta apm) Pc v_bar p_s T epsilon s1 = Some (Inr s)"
  using assms
  by (auto simp: call_option_run_def call_option_while_first Let_def split: sum.splits)

lemma call_option_result:
  "call_option apm zeta p_s T epsilon = Some (Inr (w, w_bars)) \<longleftrightarrow>
   (\<exists>s. call_option_run apm zeta p_s T epsilon = Some (Inr s) \<and> w = ls_w_bar s \<and> w_bars = ls_w_bars s)"
  by (cases "call_option_run apm zeta p_s T epsilon")
    (auto simp: call_option_def map_sum_def split: sum.splits)

text \<open>
  C8. When \<open>call_option\<close> returns and \<open>0\<close> is among the horizons, the returned
  dictionary has the key \<open>0\<close>, and its value is the zero vector of length \<open>n\<close>:
  the snapshot of the first pass, which no later pass (they write the keys \<open>1, 2, ...\<close>)
  touches.
\<close>

theorem call_option_snapshot_zero:
  assumes "call_option apm zeta p_s T epsilon = Some (Inr (w, w_bars))" and "0 \<in> set T"
  shows "w_bars 0 = Some (zeros (apm_n apm)) \<and> length (zeros (apm_n apm)) = apm_n apm"
proof -
  from assms(1) obtain s where run: "call_option_run apm zeta p_s T epsilon = Some (Inr s)"
    and w: "w_bars = ls_w_bars s"
    by (auto simp: call_option_result)
  from run obtain Pc v_bar s1 where
    b: "call_option_body (apm_beta apm) Pc v_bar p_s T
           \<lparr>ls_w_bar = zeros (apm_n apm), ls_error = epsilon + 1, ls_t = 0, ls_w_bars = Map.empty\<rparr> = Inr s1"
    and wh: "call_option_while (apm_beta apm) Pc v_bar p_s T epsilon s1 = Some (Inr s)"
    by (rule call_option_run_cases)
  let ?Inv = "\<lambda>s. 1 \<le> ls_t s \<and> ls_w_bars s 0 = Some (zeros (apm_n apm))"
  have init: "?Inv s1"
    using call_option_body_fields [OF b] assms(2) by simp
  have step: "?Inv s3" if "?Inv s2" and "call_option_body (apm_beta apm) Pc v_bar p_s T s2 = Inr s3" for s2 s3
    using call_option_body_fields [OF that(2)] that(1) by auto
  from while_invariant [where Inv = ?Inv, OF wh _ init] step
  have "?Inv s" by blast
  then show ?thesis by (simp add: w zeros_def)
qed

text \<open>
  C10. When the loop ends after \<open>ls_t s\<close> passes, the dictionary holds exactly the
  requested horizons in \<open>0, ..., ls_t s - 1\<close>: a requested horizon \<open>t\<close> with
  \<open>ls_t s \<le> t\<close> has no entry, and the function returns normally.
\<close>

theorem call_option_horizon_absent:
  assumes "call_option_run apm zeta p_s T epsilon = Some (Inr s)"
    and "t \<in> set T" and "ls_t s \<le> t"
  shows "call_option apm zeta p_s T epsilon = Some (Inr (ls_w_bar s, ls_w_bars s)) \<and>
         ls_w_bars s t = None \<and> dom (ls_w_bars s) = {t \<in> set T. 0 \<le> t \<and> t < ls_t s}"
proof -
  from assms(1) obtain Pc v_bar s1 where
    b: "call_option_body (apm_beta apm) Pc v_bar p_s T
           \<lparr>ls_w_bar = zeros (apm_n apm), ls_error = epsilon + 1, ls_t = 0, ls_w_bars = Map.empty\<rparr> = Inr s1"
    and wh: "call_option_while (apm_beta apm) Pc v_bar p_s T epsilon s1 = Some (Inr s)"
    by (rule call_option_run_cases)
  let ?Inv = "\<lambda>s. 0 \<le> ls_t s \<and> dom (ls_w_bars s) = {t \<in> set T. 0 \<le> t \<and> t < ls_t s}"
  have lt1: "x < 1 \<longleftrightarrow> x \<le> 0" for x :: int by arith
  have init: "?Inv s1"
    using call_option_body_fields [OF b] by (auto simp: lt1)
  have step: "?Inv s3" if "?Inv s2" and "call_option_body (apm_beta apm) Pc v_bar p_s T s2 = Inr s3" for s2 s3
    using call_option_body_fields [OF that(2)] that(1) by (auto simp: zless_add1_eq)
  from while_invariant [where Inv = ?Inv, OF wh _ init] step
  have inv: "?Inv s" by blast
  with assms(2,3) have "t \<notin> dom (ls_w_bars s)" by auto
  then have "ls_w_bars s t = None" by auto
  moreover have "call_option apm zeta p_s T epsilon = Some (Inr (ls_w_bar s, ls_w_bars s))"
    using assms(1) by (simp add: call_option_result)
  ultimately show ?thesis using inv by simp
qed


lemma apm0_P_check: "P_check apm0 = Inr [[1/2, 1/2], [1/4, 3/4]]"
  by (simp add: apm0_def P_check_def broadcast_mul_def ncols_def float_pow_def)

lemma apm0_consol_price: "consol_price apm0 3 = Inr [3, 3]"
  by (simp add: consol_price_def apm0_P_check)
    (simp add: apm0_def has_shape_def
        solve_def mat_sub_def identity_def smult_def matvec_def ones_def dot_def numeral_2_eq_2
        gauss.simps Let_def swap_rows_def eliminate_def)

lemma apm0_run:
  "call_option_run apm0 3 1 T (1/100) =
     Some (Inr \<lparr>ls_w_bar = [2, 2], ls_error = 0, ls_t = 2,
       ls_w_bars = (if 1 \<in> set T then (if 0 \<in> set T then [0 \<mapsto> [0, 0]] else Map.empty)(1 \<mapsto> [2, 2])
                    else if 0 \<in> set T then [0 \<mapsto> [0, 0]] else Map.empty)\<rparr>)"
  by (simp add: call_option_run_def apm0_P_check apm0_consol_price)
    (simp add: apm0_def call_option_while.simps call_option_body_def amax_vstack_def amax_def
       matvec_def dot_def zeros_def numeral_2_eq_2)


theorem call_option_snapshot_zero_witness:
  "call_option apm0 3 1 [0, 1, 5] (1/100) = Some (Inr ([2, 2], [0 \<mapsto> [0, 0], 1 \<mapsto> [2, 2]])) \<and>
   (0::int) \<in> set [0, 1, 5] \<and>
   [0 \<mapsto> [0, 0], 1 \<mapsto> [2, 2::real]] (0::int) = Some (zeros 2)"
proof -
  have r: "call_option apm0 3 1 [0, 1, 5] (1/100) = Some (Inr ([2, 2], [0 \<mapsto> [0, 0], 1 \<mapsto> [2, 2]]))"
    by (simp add: call_option_def apm0_run)
  have m: "(0::int) \<in> set [0, 1, 5]" by simp
  from call_option_snapshot_zero [OF r m] have "[0 \<mapsto> [0, 0], 1 \<mapsto> [2, 2::real]] (0::int) = Some (zeros 2)"
    by (simp add: apm0_def)
  with r m show ?thesis by blast
qed

theorem call_option_horizon_absent_witness:
  "call_option_run apm0 3 1 [5] (1/100) =
     Some (Inr \<lparr>ls_w_bar = [2, 2], ls_error = 0, ls_t = 2, ls_w_bars = Map.empty\<rparr>) \<and>
   (5::int) \<in> set [5] \<and> (2::int) \<le> 5 \<and>
   call_option apm0 3 1 [5] (1/100) = Some (Inr ([2, 2], Map.empty)) \<and>
   (Map.empty :: int \<rightharpoonup> vec) 5 = None"
proof -
  have r: "call_option_run apm0 3 1 [5] (1/100) =
     Some (Inr \<lparr>ls_w_bar = [2, 2], ls_error = 0, ls_t = 2, ls_w_bars = Map.empty\<rparr>)"
    by (simp add: apm0_run)
  have m: "(5::int) \<in> set [5]" by simp
  have l: "ls_t \<lparr>ls_w_bar = [2, 2], ls_error = 0, ls_t = 2, ls_w_bars = Map.empty\<rparr> \<le> 5" by simp
  from call_option_horizon_absent [OF r m l] r show ?thesis by simp
qed

lemma dot_nonneg:
  "\<forall>a \<in> set u. 0 \<le> a \<Longrightarrow> \<forall>b \<in> set w. 0 \<le> b \<Longrightarrow> 0 \<le> dot u w"
  by (induction u arbitrary: w) (case_tac w; simp)+

lemma P_check_shape:
  assumes "valid_model apm" and "P_check apm = Inr Pc"
  shows "has_shape Pc (apm_n apm) (apm_n apm)"
proof -
  from assms(2) obtain yp where
    yp: "np_power (mc_state_values (apm_mc apm)) (- apm_gamma apm) = Inr yp"
    by (auto simp: P_check_def Let_def split: sum.splits)
  from assms(1) have sh: "has_shape (mc_P (apm_mc apm)) (apm_n apm) (apm_n apm)"
    and l: "length (mc_state_values (apm_mc apm)) = apm_n apm"
    by (simp_all add: valid_model_def)
  from P_check_matching [OF sh l yp] assms(2) show ?thesis by simp
qed

lemma P_check_valid:
  assumes "valid_model apm" and "positive_states apm"
  shows "\<exists>Pc. P_check apm = Inr Pc \<and> has_shape Pc (apm_n apm) (apm_n apm) \<and> nonneg_mat Pc"
proof -
  let ?P = "mc_P (apm_mc apm)"
  define y where "y = map (\<lambda>v. v powr (- apm_gamma apm)) (mc_state_values (apm_mc apm))"
  let ?y = y
  let ?M = "map (\<lambda>row. map2 (*) row ?y) ?P"
  from assms(1) have sh: "has_shape ?P (apm_n apm) (apm_n apm)"
    and l: "length (mc_state_values (apm_mc apm)) = apm_n apm"
    by (simp_all add: valid_model_def)
  have yp: "np_power (mc_state_values (apm_mc apm)) (- apm_gamma apm) = Inr ?y"
    using assms(2) by (simp add: positive_states_def np_power_positive y_def)
  note eq = P_check_matching(1) [OF sh l yp] and shape = P_check_matching(2) [OF sh l yp]
  have y0: "\<forall>b \<in> set ?y. 0 \<le> b" by (auto simp: y_def)
  have P0: "\<forall>row \<in> set ?P. \<forall>a \<in> set row. 0 \<le> a"
    using assms(1) by (auto simp: valid_model_def list_all_iff)
  have "nonneg_mat ?M"
    unfolding nonneg_mat_def list_all_iff
  proof (intro ballI)
    fix r c assume "r \<in> set ?M" and c: "c \<in> set r"
    then obtain row where row: "row \<in> set ?P" and r: "r = map2 (*) row ?y" by auto
    from c r obtain a b where "a \<in> set row" "b \<in> set ?y" "c = a * b"
      by (auto dest: set_zip_leftD set_zip_rightD)
    with P0 y0 row show "0 \<le> c" by simp
  qed
  with eq shape show ?thesis by blast
qed

lemma bellman_bounds:
  assumes sh: "has_shape Pc n n" and nn: "nonneg_mat Pc" and lv: "length v_bar = n"
    and b0: "0 \<le> beta" and lw: "length w = n" and w0: "\<forall>i < n. 0 \<le> w ! i"
  shows "length (bellman beta Pc v_bar p_s w) = n \<and>
         (\<forall>i < n. 0 \<le> bellman beta Pc v_bar p_s w ! i \<and> v_bar ! i - p_s \<le> bellman beta Pc v_bar p_s w ! i)"
proof -
  have len: "length Pc = n" using sh by (simp add: has_shape_def)
  have wset: "\<forall>b \<in> set w. 0 \<le> b" using lw w0 by (auto simp: in_set_conv_nth)
  have "0 \<le> dot (Pc ! i) w" if "i < n" for i
  proof -
    from that len nn have "\<forall>a \<in> set (Pc ! i). 0 \<le> a"
      by (auto simp: nonneg_mat_def list_all_iff)
    then show ?thesis using wset by (rule dot_nonneg)
  qed
  then have cont: "0 \<le> beta * dot (Pc ! i) w" if "i < n" for i
    using that b0 by simp
  have nth: "bellman beta Pc v_bar p_s w ! i = max (beta * dot (Pc ! i) w) (v_bar ! i - p_s)"
    if "i < n" for i
    using that len lv by (simp add: bellman_def matvec_def)
  have "length (bellman beta Pc v_bar p_s w) = n"
    using len lv by (simp add: bellman_def)
  then show ?thesis using cont by (simp add: nth le_max_iff_disj)
qed

text \<open>
  C4. For a valid model with strictly positive state values, the prices \<open>w\<close> that
  \<open>call_option\<close> returns satisfy
  \<open>w[i] \<ge> v_bar[i] - p_s\<close> and \<open>w[i] \<ge> 0\<close> in every state \<open>i\<close>, where
  \<open>v_bar = consol_price(apm, zeta)\<close>.
\<close>

theorem call_option_dominates:
  assumes v: "valid_model apm" and ps: "positive_states apm"
    and c: "consol_price apm zeta = Inr v_bar"
    and r: "call_option apm zeta p_s T epsilon = Some (Inr (w, w_bars))"
  shows "length w = apm_n apm \<and> (\<forall>i < apm_n apm. v_bar ! i - p_s \<le> w ! i \<and> 0 \<le> w ! i)"
proof -
  let ?n = "apm_n apm" and ?beta = "apm_beta apm"
  from r obtain s where run: "call_option_run apm zeta p_s T epsilon = Some (Inr s)"
    and w: "w = ls_w_bar s"
    by (auto simp: call_option_result)
  from run c obtain Pc s1 where Pc: "P_check apm = Inr Pc" and
    b: "call_option_body ?beta Pc v_bar p_s T
           \<lparr>ls_w_bar = zeros ?n, ls_error = epsilon + 1, ls_t = 0, ls_w_bars = Map.empty\<rparr> = Inr s1"
    and wh: "call_option_while ?beta Pc v_bar p_s T epsilon s1 = Some (Inr s)"
    by (auto elim!: call_option_run_cases)
  from P_check_valid [OF v ps] Pc have sh: "has_shape Pc ?n ?n" and nn: "nonneg_mat Pc" by simp_all
  have lv: "length v_bar = ?n"
  proof -
    from c Pc sh obtain x where "solve (mat_sub (identity ?n) (smult ?beta Pc))
        (matvec Pc (map ((*) zeta) (ones ?n))) = Inr x" and "v_bar = map ((*) ?beta) x"
      by (auto simp: consol_price_def Let_def split: sum.splits)
    with solve_sound [of _ _ x] has_shape_system_matrix [OF sh, of ?beta] show ?thesis
      by (auto simp: has_shape_def)
  qed
  have b0: "0 \<le> ?beta" using v by (simp add: valid_model_def)
  let ?Inv = "\<lambda>s. length (ls_w_bar s) = ?n \<and>
      (\<forall>i < ?n. 0 \<le> ls_w_bar s ! i \<and> v_bar ! i - p_s \<le> ls_w_bar s ! i)"
  have next_state: "?Inv s3"
    if "length (ls_w_bar s2) = ?n" and "\<forall>i < ?n. 0 \<le> ls_w_bar s2 ! i"
      and "call_option_body ?beta Pc v_bar p_s T s2 = Inr s3" for s2 s3
  proof -
    from call_option_body_fields(3) [OF that(3)]
    have "ls_w_bar s3 = bellman ?beta Pc v_bar p_s (ls_w_bar s2)" by (simp add: bellman_def)
    with bellman_bounds [OF sh nn lv b0 that(1,2), of p_s] show ?thesis by simp
  qed
  have init: "?Inv s1"
    by (rule next_state [OF _ _ b]) (simp_all add: zeros_def)
  have step: "?Inv s3" if "?Inv s2" and "call_option_body ?beta Pc v_bar p_s T s2 = Inr s3" for s2 s3
    using next_state [OF _ _ that(2)] that(1) by blast
  from while_invariant [where Inv = ?Inv, OF wh _ init] step
  have "?Inv s" by blast
  then show ?thesis by (simp add: w)
qed

theorem call_option_dominates_witness:
  "valid_model apm0 \<and> positive_states apm0 \<and> consol_price apm0 3 = Inr [3, 3] \<and>
   call_option apm0 3 1 [] (1/100) = Some (Inr ([2, 2], Map.empty)) \<and>
   length [2, 2 :: real] = apm_n apm0 \<and>
   [3, 3] ! 0 - 1 \<le> [2, 2 :: real] ! 0 \<and> 0 \<le> [2, 2 :: real] ! 0 \<and>
   [3, 3] ! 1 - 1 \<le> [2, 2 :: real] ! 1 \<and> 0 \<le> [2, 2 :: real] ! 1"
proof -
  have v: "valid_model apm0" by (simp add: valid_model_def apm0_def has_shape_def)
  have ps: "positive_states apm0" by (simp add: positive_states_def apm0_def)
  have r: "call_option apm0 3 1 [] (1/100) = Some (Inr ([2, 2], Map.empty))"
    by (simp add: call_option_def apm0_run)
  have n: "apm_n apm0 = 2" by (simp add: apm0_def)
  from call_option_dominates [OF v ps apm0_consol_price r]
  have l: "length [2, 2 :: real] = apm_n apm0"
    and a: "\<forall>i < apm_n apm0. [3, 3] ! i - 1 \<le> [2, 2 :: real] ! i \<and> 0 \<le> [2, 2 :: real] ! i"
    by blast+
  from a have "[3, 3] ! 0 - 1 \<le> [2, 2 :: real] ! 0 \<and> 0 \<le> [2, 2 :: real] ! 0"
    and "[3, 3] ! 1 - 1 \<le> [2, 2 :: real] ! 1 \<and> 0 \<le> [2, 2 :: real] ! 1"
    by (simp_all add: n)
  with l have "length [2, 2 :: real] = apm_n apm0 \<and>
   [3, 3] ! 0 - 1 \<le> [2, 2 :: real] ! 0 \<and> 0 \<le> [2, 2 :: real] ! 0 \<and>
   [3, 3] ! 1 - 1 \<le> [2, 2 :: real] ! 1 \<and> 0 \<le> [2, 2 :: real] ! 1"
    by simp
  with v ps apm0_consol_price r show ?thesis by blast
qed

subsection \<open>Termination of the value iteration\<close>

lemma dot_sum:
  assumes "length u = n" and "length v = n"
  shows "dot u v = (\<Sum>l < n. u ! l * v ! l)"
proof -
  have "dot u v = (\<Sum>l = 0..<length (map2 (*) u v). map2 (*) u v ! l)"
    unfolding dot_def by (rule sum_list_sum_nth)
  also have "\<dots> = (\<Sum>l = 0..<n. u ! l * v ! l)"
    using assms by (intro sum.cong) auto
  finally show ?thesis by (simp add: lessThan_atLeast0)
qed

lemma abs_row_sum:
  assumes "length r = n"
  shows "sum_list (map abs r) = (\<Sum>l < n. \<bar>r ! l\<bar>)"
proof -
  have "sum_list (map abs r) = (\<Sum>l = 0..<length (map abs r). map abs r ! l)"
    by (rule sum_list_sum_nth)
  also have "\<dots> = (\<Sum>l = 0..<n. \<bar>r ! l\<bar>)"
    using assms by (intro sum.cong) auto
  finally show ?thesis by (simp add: lessThan_atLeast0)
qed

lemma has_shape_nth: "has_shape M r c \<Longrightarrow> i < r \<Longrightarrow> length (M ! i) = c"
  by (auto simp: has_shape_def list_all_length)

lemma has_shape_length: "has_shape M r c \<Longrightarrow> length M = r"
  by (simp add: has_shape_def)

lemma matvec_nth: "i < length M \<Longrightarrow> matvec M x ! i = dot (M ! i) x"
  by (simp add: matvec_def)

lemma matvec_entry:
  assumes "has_shape M n n" and "length x = n" and "i < n"
  shows "matvec M x ! i = (\<Sum>l < n. M ! i ! l * x ! l)"
  using assms by (simp add: matvec_nth has_shape_length dot_sum has_shape_nth)

lemma mat_mul_shape:
  assumes "has_shape A n n" and "has_shape B n n" and "0 < n"
  shows "has_shape (mat_mul A B) n n"
  using assms ncols_has_shape [OF assms(2,3)]
  by (auto simp: has_shape_def mat_mul_def list_all_length)

lemma mat_mul_entry:
  assumes "has_shape A n n" and "has_shape B n n" and "i < n" and "j < n"
  shows "mat_mul A B ! i ! j = (\<Sum>l < n. A ! i ! l * B ! l ! j)"
proof -
  from assms have n: "0 < n" by auto
  have nc: "ncols B = n" by (rule ncols_has_shape [OF assms(2) n])
  have "mat_mul A B ! i ! j = dot (A ! i) (column B j)"
    using assms nc by (simp add: mat_mul_def has_shape_length)
  also have "\<dots> = (\<Sum>l < n. A ! i ! l * column B j ! l)"
    using assms by (intro dot_sum) (simp_all add: has_shape_nth column_def has_shape_length)
  also have "\<dots> = (\<Sum>l < n. A ! i ! l * B ! l ! j)"
    using assms by (intro sum.cong) (simp_all add: column_def has_shape_length)
  finally show ?thesis .
qed

lemma identity_shape: "has_shape (identity n) n n"
  by (simp add: has_shape_def identity_def list_all_length)

lemma identity_entry: "i < n \<Longrightarrow> j < n \<Longrightarrow> identity n ! i ! j = (if i = j then 1 else 0)"
  by (simp add: identity_def)

lemma mat_pow_shape:
  assumes "has_shape M n n" and "0 < n"
  shows "has_shape (mat_pow M k) n n"
proof (induction k)
  case 0
  from assms show ?case by (simp add: has_shape_length identity_shape)
next
  case (Suc k)
  then show ?case by (simp add: mat_mul_shape assms)
qed

lemma matvec_identity:
  assumes "length x = n"
  shows "matvec (identity n) x = x"
proof (rule nth_equalityI)
  show "length (matvec (identity n) x) = length x"
    using assms by (simp add: identity_def)
next
  fix i assume "i < length (matvec (identity n) x)"
  then have i: "i < n" by (simp add: identity_def)
  have "matvec (identity n) x ! i = (\<Sum>l < n. identity n ! i ! l * x ! l)"
    by (rule matvec_entry [OF identity_shape assms i])
  also have "\<dots> = (\<Sum>l < n. if l = i then x ! l else 0)"
    using i by (intro sum.cong) (auto simp: identity_entry)
  also have "\<dots> = x ! i" using i by simp
  finally show "matvec (identity n) x ! i = x ! i" .
qed

lemma matvec_mat_mul:
  assumes A: "has_shape A n n" and B: "has_shape B n n" and x: "length x = n" and n: "0 < n"
  shows "matvec (mat_mul A B) x = matvec A (matvec B x)"
proof (rule nth_equalityI)
  show "length (matvec (mat_mul A B) x) = length (matvec A (matvec B x))"
    by (simp add: mat_mul_def)
next
  fix i assume "i < length (matvec (mat_mul A B) x)"
  then have i: "i < n" using A by (simp add: mat_mul_def has_shape_length)
  have lB: "length (matvec B x) = n" using B by (simp add: has_shape_length)
  have "matvec (mat_mul A B) x ! i = (\<Sum>j < n. mat_mul A B ! i ! j * x ! j)"
    by (rule matvec_entry [OF mat_mul_shape [OF A B n] x i])
  also have "\<dots> = (\<Sum>j < n. (\<Sum>l < n. A ! i ! l * B ! l ! j) * x ! j)"
    using i by (intro sum.cong) (simp_all add: mat_mul_entry [OF A B])
  also have "\<dots> = (\<Sum>j < n. \<Sum>l < n. A ! i ! l * (B ! l ! j * x ! j))"
    by (simp add: sum_distrib_right mult.assoc)
  also have "\<dots> = (\<Sum>l < n. \<Sum>j < n. A ! i ! l * (B ! l ! j * x ! j))"
    by (rule sum.swap)
  also have "\<dots> = (\<Sum>l < n. A ! i ! l * (\<Sum>j < n. B ! l ! j * x ! j))"
    by (simp add: sum_distrib_left)
  also have "\<dots> = (\<Sum>l < n. A ! i ! l * matvec B x ! l)"
    by (intro sum.cong) (simp_all add: matvec_entry [OF B x])
  also have "\<dots> = matvec A (matvec B x) ! i"
    by (rule matvec_entry [OF A lB i, symmetric])
  finally show "matvec (mat_mul A B) x ! i = matvec A (matvec B x) ! i" .
qed

lemma matvec_mat_pow:
  assumes M: "has_shape M n n" and x: "length x = n" and n: "0 < n"
  shows "matvec (mat_pow M k) x = (matvec M ^^ k) x"
proof (induction k)
  case 0
  from M x show ?case by (simp add: has_shape_length matvec_identity)
next
  case (Suc k)
  have "matvec (mat_pow M (Suc k)) x = matvec M (matvec (mat_pow M k) x)"
    by (simp add: matvec_mat_mul [OF M mat_pow_shape [OF M n] x n])
  with Suc show ?case by simp
qed

lemma mat_norm_nonneg: "0 \<le> mat_norm M"
  by (simp add: mat_norm_def)

lemma mat_norm_row: "i < length M \<Longrightarrow> sum_list (map abs (M ! i)) \<le> mat_norm M"
  unfolding mat_norm_def by (rule Max_ge) auto

lemma matvec_bound:
  assumes M: "has_shape M n n" and x: "length x = n" and i: "i < n"
    and c: "\<forall>l < n. \<bar>x ! l\<bar> \<le> c"
  shows "\<bar>matvec M x ! i\<bar> \<le> mat_norm M * c"
proof -
  have c0: "0 \<le> c" using c i by (metis abs_ge_zero order_trans)
  have "\<bar>matvec M x ! i\<bar> = \<bar>\<Sum>l < n. M ! i ! l * x ! l\<bar>"
    by (simp add: matvec_entry [OF M x i])
  also have "\<dots> \<le> (\<Sum>l < n. \<bar>M ! i ! l * x ! l\<bar>)" by (rule sum_abs)
  also have "\<dots> \<le> (\<Sum>l < n. \<bar>M ! i ! l\<bar> * c)"
    using c by (intro sum_mono) (simp add: abs_mult mult_left_mono)
  also have "\<dots> = sum_list (map abs (M ! i)) * c"
    using has_shape_nth [OF M i] by (simp add: abs_row_sum sum_distrib_right)
  also have "\<dots> \<le> mat_norm M * c"
    using mat_norm_row [of i M] M i c0 by (simp add: has_shape_length mult_right_mono)
  finally show ?thesis .
qed

lemma matvec_mono:
  assumes M: "has_shape M n n" and nn: "nonneg_mat M" and x: "length x = n" and y: "length y = n"
    and le: "\<forall>l < n. x ! l \<le> y ! l" and i: "i < n"
  shows "matvec M x ! i \<le> matvec M y ! i"
proof -
  have e: "0 \<le> M ! i ! l" if "l < n" for l
    using that M i nn has_shape_nth [OF M i]
    by (auto simp: nonneg_mat_def list_all_length has_shape_length)
  have "(\<Sum>l < n. M ! i ! l * x ! l) \<le> (\<Sum>l < n. M ! i ! l * y ! l)"
    using le e by (intro sum_mono) (simp add: mult_left_mono)
  then show ?thesis by (simp add: matvec_entry [OF M x i] matvec_entry [OF M y i])
qed

lemma abs_diff_length: "length (abs_diff u v) = min (length u) (length v)"
  by (simp add: abs_diff_def)

lemma abs_diff_nth: "i < length u \<Longrightarrow> i < length v \<Longrightarrow> abs_diff u v ! i = \<bar>u ! i - v ! i\<bar>"
  by (simp add: abs_diff_def)

lemma bellman_length:
  "length Pc = n \<Longrightarrow> length v_bar = n \<Longrightarrow> length (bellman beta Pc v_bar p_s w) = n"
  by (simp add: bellman_def)

lemma bellman_nth:
  "length Pc = n \<Longrightarrow> length v_bar = n \<Longrightarrow> i < n \<Longrightarrow>
   bellman beta Pc v_bar p_s w ! i = max (beta * matvec Pc w ! i) (v_bar ! i - p_s)"
  by (simp add: bellman_def)

lemma max_diff_le: "\<bar>max a c - max a' c\<bar> \<le> \<bar>a - a'\<bar>" for a :: real
  by (simp add: max_def)

lemma bellman_lipschitz:
  assumes sh: "has_shape Pc n n" and nn: "nonneg_mat Pc" and lv: "length v_bar = n"
    and b0: "0 \<le> beta" and u: "length u = n" and v: "length v = n" and i: "i < n"
  shows "\<bar>bellman beta Pc v_bar p_s u ! i - bellman beta Pc v_bar p_s v ! i\<bar>
           \<le> beta * matvec Pc (abs_diff u v) ! i"
proof -
  have len: "length Pc = n" by (rule has_shape_length [OF sh])
  have e: "0 \<le> Pc ! i ! l" if "l < n" for l
    using that sh i nn has_shape_nth [OF sh i]
    by (auto simp: nonneg_mat_def list_all_length has_shape_length)
  have ld: "length (abs_diff u v) = n" using u v by (simp add: abs_diff_length)
  have "\<bar>bellman beta Pc v_bar p_s u ! i - bellman beta Pc v_bar p_s v ! i\<bar>
      \<le> \<bar>beta * matvec Pc u ! i - beta * matvec Pc v ! i\<bar>"
    by (simp add: bellman_nth [OF len lv i] max_diff_le)
  also have "\<dots> = beta * \<bar>matvec Pc u ! i - matvec Pc v ! i\<bar>"
    using b0 by (simp add: right_diff_distrib [symmetric] abs_mult)
  also have "matvec Pc u ! i - matvec Pc v ! i = (\<Sum>l < n. Pc ! i ! l * (u ! l - v ! l))"
    by (simp add: matvec_entry [OF sh u i] matvec_entry [OF sh v i] sum_subtractf right_diff_distrib)
  also have "\<bar>\<dots>\<bar> \<le> (\<Sum>l < n. \<bar>Pc ! i ! l * (u ! l - v ! l)\<bar>)" by (rule sum_abs)
  also have "\<dots> = (\<Sum>l < n. Pc ! i ! l * abs_diff u v ! l)"
    using e u v by (intro sum.cong) (simp_all add: abs_mult abs_diff_nth)
  also have "\<dots> = matvec Pc (abs_diff u v) ! i"
    by (simp add: matvec_entry [OF sh ld i])
  finally show ?thesis using b0 by (simp add: mult_left_mono)
qed


lemma bellman_iter_length:
  "length Pc = n \<Longrightarrow> length v_bar = n \<Longrightarrow> length (bellman_iter beta Pc v_bar p_s n k) = n"
  by (cases k) (simp_all add: bellman_iter_def zeros_def bellman_length)

lemma bellman_change_length:
  "length Pc = n \<Longrightarrow> length v_bar = n \<Longrightarrow> length (bellman_change beta Pc v_bar p_s n k) = n"
  by (simp add: bellman_change_def bellman_iter_length abs_diff_length)

lemma bellman_change_nonneg:
  "length Pc = n \<Longrightarrow> length v_bar = n \<Longrightarrow> i < n \<Longrightarrow> 0 \<le> bellman_change beta Pc v_bar p_s n k ! i"
  by (simp add: bellman_change_def abs_diff_nth bellman_iter_length)

lemma bellman_change_step:
  assumes sh: "has_shape Pc n n" and nn: "nonneg_mat Pc" and lv: "length v_bar = n"
    and b0: "0 \<le> beta" and i: "i < n"
  shows "bellman_change beta Pc v_bar p_s n (Suc k) ! i
           \<le> beta * matvec Pc (bellman_change beta Pc v_bar p_s n k) ! i"
proof -
  let ?W = "bellman_iter beta Pc v_bar p_s n"
  have len: "length Pc = n" by (rule has_shape_length [OF sh])
  have l: "length (?W j) = n" for j by (rule bellman_iter_length [OF len lv])
  have S: "?W (Suc j) = bellman beta Pc v_bar p_s (?W j)" for j
    by (simp add: bellman_iter_def)
  have "bellman_change beta Pc v_bar p_s n (Suc k) ! i = \<bar>?W (Suc k) ! i - ?W (Suc (Suc k)) ! i\<bar>"
    using i l by (simp add: bellman_change_def abs_diff_nth)
  also have "\<dots> \<le> beta * matvec Pc (abs_diff (?W k) (?W (Suc k))) ! i"
    unfolding S [of "Suc k"] S [of k]
    by (rule bellman_lipschitz [OF sh nn lv b0 l _ i]) (simp add: bellman_length [OF len lv])
  finally show ?thesis by (simp add: bellman_change_def)
qed

lemma bellman_change_power:
  assumes sh: "has_shape Pc n n" and nn: "nonneg_mat Pc" and lv: "length v_bar = n"
    and b0: "0 \<le> beta" and n: "0 < n"
  shows "\<forall>i < n. bellman_change beta Pc v_bar p_s n (j + k) ! i
           \<le> beta ^ k * matvec (mat_pow Pc k) (bellman_change beta Pc v_bar p_s n j) ! i"
proof (induction k)
  case 0
  have len: "length Pc = n" by (rule has_shape_length [OF sh])
  show ?case
    by (simp add: len matvec_identity [OF bellman_change_length [OF len lv]])
next
  case (Suc k)
  let ?D = "bellman_change beta Pc v_bar p_s n"
  have len: "length Pc = n" by (rule has_shape_length [OF sh])
  let ?y = "map ((*) (beta ^ k)) (matvec (mat_pow Pc k) (?D j))"
  have shk: "has_shape (mat_pow Pc k) n n" by (rule mat_pow_shape [OF sh n])
  have ly: "length ?y = n" using shk by (simp add: has_shape_length)
  have lD: "length (?D m) = n" for m by (rule bellman_change_length [OF len lv])
  have le: "\<forall>l < n. ?D (j + k) ! l \<le> ?y ! l"
    using Suc shk by (simp add: has_shape_length)
  show ?case
  proof (intro allI impI)
    fix i assume i: "i < n"
    have "?D (j + Suc k) ! i \<le> beta * matvec Pc (?D (j + k)) ! i"
      using bellman_change_step [OF sh nn lv b0 i, of p_s "j + k"] by simp
    also have "\<dots> \<le> beta * matvec Pc ?y ! i"
      using matvec_mono [OF sh nn lD ly le i] b0 by (simp add: mult_left_mono)
    also have "matvec Pc ?y = map ((*) (beta ^ k)) (matvec Pc (matvec (mat_pow Pc k) (?D j)))"
      by (rule matvec_scale)
    also have "matvec Pc (matvec (mat_pow Pc k) (?D j)) = matvec (mat_pow Pc (Suc k)) (?D j)"
      by (simp add: matvec_mat_mul [OF sh shk lD n])
    also have "beta * map ((*) (beta ^ k)) (matvec (mat_pow Pc (Suc k)) (?D j)) ! i
        = beta ^ Suc k * matvec (mat_pow Pc (Suc k)) (?D j) ! i"
      using i mat_pow_shape [OF sh n, of "Suc k"] by (simp add: has_shape_length del: mat_pow.simps)
    finally show "?D (j + Suc k) ! i \<le> beta ^ Suc k * matvec (mat_pow Pc (Suc k)) (?D j) ! i" .
  qed
qed

lemma bellman_change_contract:
  assumes sh: "has_shape Pc n n" and nn: "nonneg_mat Pc" and lv: "length v_bar = n"
    and b0: "0 \<le> beta" and n: "0 < n"
    and B: "\<forall>i < n. bellman_change beta Pc v_bar p_s n j ! i \<le> B"
  shows "\<forall>i < n. bellman_change beta Pc v_bar p_s n (j + m) ! i
           \<le> beta ^ m * mat_norm (mat_pow Pc m) * B"
proof (intro allI impI)
  fix i assume i: "i < n"
  let ?D = "bellman_change beta Pc v_bar p_s n"
  have len: "length Pc = n" by (rule has_shape_length [OF sh])
  have lD: "length (?D j) = n" by (rule bellman_change_length [OF len lv])
  have ab: "\<forall>l < n. \<bar>?D j ! l\<bar> \<le> B"
    using B bellman_change_nonneg [OF len lv, of _ beta p_s j] by simp
  have "?D (j + m) ! i \<le> beta ^ m * matvec (mat_pow Pc m) (?D j) ! i"
    using bellman_change_power [OF sh nn lv b0 n] i by blast
  also have "\<dots> \<le> beta ^ m * \<bar>matvec (mat_pow Pc m) (?D j) ! i\<bar>"
    using b0 by (simp add: mult_left_mono)
  also have "\<dots> \<le> beta ^ m * (mat_norm (mat_pow Pc m) * B)"
    using matvec_bound [OF mat_pow_shape [OF sh n] lD i ab] b0 by (simp add: mult_left_mono)
  finally show "?D (j + m) ! i \<le> beta ^ m * mat_norm (mat_pow Pc m) * B" by (simp add: mult.assoc)
qed

lemma bellman_change_geometric:
  assumes sh: "has_shape Pc n n" and nn: "nonneg_mat Pc" and lv: "length v_bar = n"
    and b0: "0 \<le> beta" and n: "0 < n"
    and B: "\<forall>i < n. bellman_change beta Pc v_bar p_s n 0 ! i \<le> B"
  shows "\<forall>i < n. bellman_change beta Pc v_bar p_s n (q * m) ! i
           \<le> (beta ^ m * mat_norm (mat_pow Pc m)) ^ q * B"
proof (induction q)
  case 0
  from B show ?case by simp
next
  case (Suc q)
  from bellman_change_contract [OF sh nn lv b0 n Suc, of m]
  show ?case by (simp add: add.commute mult.assoc)
qed

lemma bellman_change_small:
  assumes sh: "has_shape Pc n n" and nn: "nonneg_mat Pc" and lv: "length v_bar = n"
    and b0: "0 \<le> beta" and n: "0 < n"
    and c: "beta ^ m * mat_norm (mat_pow Pc m) < 1" and eps: "0 < epsilon"
  shows "\<exists>K. \<forall>i < n. bellman_change beta Pc v_bar p_s n K ! i \<le> epsilon"
proof -
  let ?D = "bellman_change beta Pc v_bar p_s n"
  let ?c = "beta ^ m * mat_norm (mat_pow Pc m)"
  have len: "length Pc = n" by (rule has_shape_length [OF sh])
  define B where "B = sum_list (?D 0)"
  have lD: "length (?D 0) = n" by (rule bellman_change_length [OF len lv])
  have nonneg: "\<forall>x \<in> set (?D 0). 0 \<le> x"
    using bellman_change_nonneg [OF len lv, of _ beta p_s 0] lD by (auto simp: in_set_conv_nth)
  have B: "\<forall>i < n. ?D 0 ! i \<le> B"
    unfolding B_def using nonneg lD by (auto intro!: member_le_sum_list)
  have B0: "0 \<le> B" unfolding B_def using nonneg by (simp add: sum_list_nonneg)
  have c0: "0 \<le> ?c" using b0 by (simp add: mat_norm_nonneg)
  have "0 < epsilon / (B + 1)" using eps B0 by simp
  from real_arch_pow_inv [OF this c] obtain q where q: "?c ^ q < epsilon / (B + 1)" ..
  have "?c ^ q * B \<le> ?c ^ q * (B + 1)" using c0 by (simp add: mult_left_mono)
  also have "\<dots> < epsilon" using q B0 by (simp add: pos_less_divide_eq)
  finally have small: "?c ^ q * B \<le> epsilon" by simp
  have "\<forall>i < n. ?D (q * m) ! i \<le> epsilon"
    using bellman_change_geometric [OF sh nn lv b0 n B, of q m] small by force
  then show ?thesis ..
qed

lemma spectral_radius_set:
  "{root k (mat_norm (mat_pow M k)) | k. 0 < k} \<noteq> {} \<and>
   bdd_below {root k (mat_norm (mat_pow M k)) | k. 0 < k}"
proof
  have "root 1 (mat_norm (mat_pow M 1)) \<in> {root k (mat_norm (mat_pow M k)) | k. 0 < k}"
    by blast
  then show "{root k (mat_norm (mat_pow M k)) | k. 0 < k} \<noteq> {}" by blast
  show "bdd_below {root k (mat_norm (mat_pow M k)) | k. 0 < k}"
    by (rule bdd_belowI [of _ 0]) (auto simp: mat_norm_nonneg)
qed

lemma spectral_radius_power:
  assumes b: "0 < beta" and r: "beta * spectral_radius M < 1"
  shows "\<exists>m. 0 < m \<and> beta ^ m * mat_norm (mat_pow M m) < 1"
proof -
  let ?S = "{root k (mat_norm (mat_pow M k)) | k. 0 < k}"
  from r b have "spectral_radius M < 1 / beta"
    by (simp add: pos_less_divide_eq mult.commute)
  then have "Inf ?S < 1 / beta" by (simp add: spectral_radius_def)
  with spectral_radius_set [of M] obtain x where "x \<in> ?S" and x: "x < 1 / beta"
    by (auto simp: cInf_less_iff)
  then obtain k where k: "0 < k" and xk: "x = root k (mat_norm (mat_pow M k))" by blast
  have x0: "0 \<le> x" by (simp add: xk real_root_ge_zero mat_norm_nonneg)
  have "mat_norm (mat_pow M k) = x ^ k"
    using k by (simp add: xk mat_norm_nonneg)
  also have "\<dots> < (1 / beta) ^ k"
    using x x0 k by (intro power_strict_mono) simp_all
  finally have "mat_norm (mat_pow M k) < 1 / beta ^ k" by (simp add: power_one_over)
  with b have "beta ^ k * mat_norm (mat_pow M k) < 1"
    by (simp add: pos_less_divide_eq mult.commute)
  with k show ?thesis by blast
qed

lemma amax_Max: "xs \<noteq> [] \<Longrightarrow> amax xs = Inr (Max (set xs))"
  by (cases xs) (simp_all add: amax_def Max.set_eq_fold [symmetric])

lemma call_option_body_success:
  assumes "length Pc = n" and "length v_bar = n" and "0 < n" and "length (ls_w_bar s) = n"
  shows "\<exists>s1. call_option_body beta Pc v_bar p_s T s = Inr s1 \<and>
           ls_w_bar s1 = bellman beta Pc v_bar p_s (ls_w_bar s) \<and>
           ls_error s1 = Max (set (abs_diff (ls_w_bar s) (bellman beta Pc v_bar p_s (ls_w_bar s))))"
proof -
  let ?w' = "bellman beta Pc v_bar p_s (ls_w_bar s)"
  have v: "amax_vstack (map ((*) beta) (matvec Pc (ls_w_bar s))) (map (\<lambda>v. v - p_s) v_bar) = Inr ?w'"
    using assms by (simp add: amax_vstack_def bellman_def)
  have "length (abs_diff (ls_w_bar s) ?w') = n"
    using assms by (simp add: bellman_length abs_diff_length)
  with assms(3) have "abs_diff (ls_w_bar s) ?w' \<noteq> []" by auto
  from amax_Max [OF this]
  have a: "amax (map2 (\<lambda>a b. \<bar>a - b\<bar>) (ls_w_bar s) ?w') = Inr (Max (set (abs_diff (ls_w_bar s) ?w')))"
    by (simp add: abs_diff_def)
  show ?thesis by (simp add: call_option_body_def v a Let_def)
qed

lemma Max_le_nth: "length xs = n \<Longrightarrow> 0 < n \<Longrightarrow> \<forall>i < n. xs ! i \<le> c \<Longrightarrow> Max (set xs) \<le> c" for c :: real
  by (subst Max_le_iff) (auto simp: in_set_conv_nth)

lemma call_option_while_terminates:
  assumes len: "length Pc = n" and lv: "length v_bar = n" and n: "0 < n"
    and lw: "length (ls_w_bar s) = n"
    and small: "\<forall>i < n. abs_diff ((bellman beta Pc v_bar p_s ^^ k) (ls_w_bar s))
                   ((bellman beta Pc v_bar p_s ^^ Suc k) (ls_w_bar s)) ! i \<le> epsilon"
  shows "\<exists>s'. call_option_while beta Pc v_bar p_s T epsilon s = Some (Inr s') \<and> ls_error s' \<le> epsilon"
  using lw small
proof (induction k arbitrary: s)
  case 0
  show ?case
  proof (cases "epsilon < ls_error s")
    case False
    then show ?thesis by (subst call_option_while.simps) simp
  next
    case True
    from call_option_body_success [OF len lv n "0.prems"(1), of beta p_s T] obtain s1 where
      b: "call_option_body beta Pc v_bar p_s T s = Inr s1"
      and e: "ls_error s1 = Max (set (abs_diff (ls_w_bar s) (bellman beta Pc v_bar p_s (ls_w_bar s))))"
      by blast
    have "length (abs_diff (ls_w_bar s) (bellman beta Pc v_bar p_s (ls_w_bar s))) = n"
      using "0.prems"(1) by (simp add: bellman_length [OF len lv] abs_diff_length)
    from Max_le_nth [OF this n] "0.prems"(2) have "ls_error s1 \<le> epsilon" by (simp add: e)
    then have "call_option_while beta Pc v_bar p_s T epsilon s1 = Some (Inr s1)"
      by (subst call_option_while.simps) simp
    with True b \<open>ls_error s1 \<le> epsilon\<close> show ?thesis
      by (subst call_option_while.simps) simp
  qed
next
  case (Suc k)
  show ?case
  proof (cases "epsilon < ls_error s")
    case False
    then show ?thesis by (subst call_option_while.simps) simp
  next
    case True
    from call_option_body_success [OF len lv n Suc.prems(1), of beta p_s T] obtain s1 where
      b: "call_option_body beta Pc v_bar p_s T s = Inr s1"
      and w: "ls_w_bar s1 = bellman beta Pc v_bar p_s (ls_w_bar s)"
      by blast
    have l1: "length (ls_w_bar s1) = n" by (simp add: w bellman_length [OF len lv])
    have "\<forall>i < n. abs_diff ((bellman beta Pc v_bar p_s ^^ k) (ls_w_bar s1))
                   ((bellman beta Pc v_bar p_s ^^ Suc k) (ls_w_bar s1)) ! i \<le> epsilon"
      using Suc.prems(2) by (simp add: w funpow_swap1)
    from Suc.IH [OF l1 this] True b show ?thesis
      by (subst call_option_while.simps) simp
  qed
qed

lemma system_matrix_entry:
  assumes "has_shape Pc n n" and "i < n" and "l < n"
  shows "mat_sub (identity n) (smult beta Pc) ! i ! l = identity n ! i ! l - beta * Pc ! i ! l"
  using assms has_shape_nth [OF assms(1,2)]
  by (simp add: mat_sub_def smult_def has_shape_length identity_def)

lemma matvec_system_matrix:
  assumes sh: "has_shape Pc n n" and x: "length x = n" and i: "i < n"
  shows "matvec (mat_sub (identity n) (smult beta Pc)) x ! i = x ! i - beta * matvec Pc x ! i"
proof -
  have "matvec (mat_sub (identity n) (smult beta Pc)) x ! i
      = (\<Sum>l < n. mat_sub (identity n) (smult beta Pc) ! i ! l * x ! l)"
    by (rule matvec_entry [OF has_shape_system_matrix [OF sh] x i])
  also have "\<dots> = (\<Sum>l < n. identity n ! i ! l * x ! l - beta * (Pc ! i ! l * x ! l))"
    using i by (intro sum.cong) (simp_all add: system_matrix_entry [OF sh] algebra_simps)
  also have "\<dots> = (\<Sum>l < n. identity n ! i ! l * x ! l) - beta * (\<Sum>l < n. Pc ! i ! l * x ! l)"
    by (simp add: sum_subtractf sum_distrib_left)
  also have "\<dots> = matvec (identity n) x ! i - beta * matvec Pc x ! i"
    by (simp add: matvec_entry [OF identity_shape x i] matvec_entry [OF sh x i])
  finally show ?thesis by (simp add: matvec_identity [OF x])
qed

lemma fixed_point_power:
  assumes sh: "has_shape Pc n n" and x: "length x = n" and n: "0 < n"
    and fp: "x = map ((*) beta) (matvec Pc x)"
  shows "x = map ((*) (beta ^ k)) (matvec (mat_pow Pc k) x)"
proof (induction k)
  case 0
  from sh x show ?case by (simp add: has_shape_length matvec_identity)
next
  case (Suc k)
  have shk: "has_shape (mat_pow Pc k) n n" by (rule mat_pow_shape [OF sh n])
  have "x = map ((*) beta) (matvec Pc (map ((*) (beta ^ k)) (matvec (mat_pow Pc k) x)))"
    using fp Suc by simp
  also have "\<dots> = map ((*) beta) (map ((*) (beta ^ k)) (matvec Pc (matvec (mat_pow Pc k) x)))"
    by (simp only: matvec_scale)
  also have "matvec Pc (matvec (mat_pow Pc k) x) = matvec (mat_pow Pc (Suc k)) x"
    by (simp add: matvec_mat_mul [OF sh shk x n])
  finally show ?case by (simp add: comp_def mult.assoc del: mat_pow.simps)
qed

lemma system_nonsingular:
  assumes sh: "has_shape Pc n n" and n: "0 < n" and b0: "0 \<le> beta"
    and c: "beta ^ m * mat_norm (mat_pow Pc m) < 1"
  shows "nonsingular (mat_sub (identity n) (smult beta Pc))"
  unfolding nonsingular_def
proof (intro allI impI, elim conjE)
  fix x :: vec
  let ?A = "mat_sub (identity n) (smult beta Pc)"
  let ?c = "beta ^ m * mat_norm (mat_pow Pc m)"
  assume lx: "length x = length ?A" and k: "matvec ?A x = zeros (length ?A)"
  have lA: "length ?A = n" by (rule has_shape_length [OF has_shape_system_matrix [OF sh]])
  from lx lA have x: "length x = n" by simp
  have len: "length Pc = n" by (rule has_shape_length [OF sh])
  have fp: "x = map ((*) beta) (matvec Pc x)"
  proof (rule nth_equalityI)
    show "length x = length (map ((*) beta) (matvec Pc x))" using x len by simp
  next
    fix i assume "i < length x"
    then have i: "i < n" using x by simp
    from k lA i have "matvec ?A x ! i = 0" by (simp add: zeros_def)
    with matvec_system_matrix [OF sh x i, of beta] len i
    show "x ! i = map ((*) beta) (matvec Pc x) ! i" by simp
  qed
  define B where "B = Max (set (map abs x))"
  have ne: "set (map abs x) \<noteq> {}" using x n by auto
  have Bmem: "B \<in> set (map abs x)" unfolding B_def by (rule Max_in [OF _ ne]) simp
  have Bub: "\<forall>l < n. \<bar>x ! l\<bar> \<le> B"
    unfolding B_def using x by (auto intro!: Max_ge)
  from Bmem x obtain l0 where l0: "l0 < n" and Bl0: "B = \<bar>x ! l0\<bar>"
    by (auto simp: in_set_conv_nth)
  have shm: "has_shape (mat_pow Pc m) n n" by (rule mat_pow_shape [OF sh n])
  have "x ! l0 = map ((*) (beta ^ m)) (matvec (mat_pow Pc m) x) ! l0"
    using fixed_point_power [OF sh x n fp, of m] by simp
  also have "\<dots> = beta ^ m * matvec (mat_pow Pc m) x ! l0"
    using l0 shm by (simp add: has_shape_length)
  finally have "B = beta ^ m * \<bar>matvec (mat_pow Pc m) x ! l0\<bar>"
    using b0 by (simp add: Bl0 abs_mult)
  also have "\<dots> \<le> beta ^ m * (mat_norm (mat_pow Pc m) * B)"
    using matvec_bound [OF shm x l0 Bub] b0 by (simp add: mult_left_mono)
  finally have "B \<le> ?c * B" by (simp add: mult.assoc)
  then have "(1 - ?c) * B \<le> 0" by (simp add: algebra_simps)
  moreover have "0 < 1 - ?c" using c by simp
  ultimately have "B \<le> 0" by (simp add: mult_le_0_iff)
  with Bub have "\<forall>l < n. x ! l = 0" by fastforce
  with x lA show "x = zeros (length ?A)"
    by (auto simp: zeros_def intro!: nth_equalityI)
qed

lemma consol_price_succeeds:
  assumes sh: "has_shape Pc n n" and Pc: "P_check apm = Inr Pc" and n: "apm_n apm = n"
    and ns: "nonsingular (mat_sub (identity n) (smult (apm_beta apm) Pc))"
  shows "\<exists>v_bar. consol_price apm zeta = Inr v_bar \<and> length v_bar = n"
proof -
  let ?A = "mat_sub (identity n) (smult (apm_beta apm) Pc)"
  let ?b = "matvec Pc (map ((*) zeta) (ones n))"
  have lb: "length ?b = n" using sh by (simp add: has_shape_length)
  from solve_complete [OF has_shape_system_matrix [OF sh] lb ns]
  obtain x where x: "solve ?A ?b = Inr x" ..
  from solve_sound [OF x] have "length x = n"
    using has_shape_system_matrix [OF sh, of "apm_beta apm"] by (simp add: has_shape_length)
  then show ?thesis using x sh Pc n by (simp add: consol_price_def)
qed

lemma call_option_run_no_state:
  assumes v: "valid_model apm" and Pc: "P_check apm = Inr Pc" and n: "apm_n apm = 0"
  shows "call_option_run apm zeta p_s T epsilon = Some (Inl ValueError)"
proof -
  from P_check_shape [OF v Pc] n have e: "Pc = []" by (simp add: has_shape_def)
  have c: "consol_price apm zeta = Inr []"
    by (simp add: consol_price_def Pc e n has_shape_def solve_def mat_sub_def identity_def
        smult_def matvec_def ones_def gauss.simps)
  show ?thesis
    by (simp add: call_option_run_def Pc c n e zeros_def call_option_while_first
        call_option_body_def amax_vstack_def amax_def matvec_def)
qed

text \<open>
  C6, as the code has it. For a valid model with strictly positive state values,
  \<open>beta * spectral_radius(P_check) < 1\<close> and a positive tolerance, the loop of
  \<open>call_option\<close> ends; when the model has at least one state it ends with the last error
  at most \<open>epsilon\<close>, and the function returns. Some power \<open>beta^m * P_check^m\<close> has norm
  below one, so the change between two iterates shrinks by that factor every \<open>m\<close> passes
  (with no state at all, the first pass raises, the maximum of an empty array).
\<close>

theorem call_option_terminates:
  assumes v: "valid_model apm" and ps: "positive_states apm" and Pc: "P_check apm = Inr Pc"
    and rho: "apm_beta apm * spectral_radius Pc < 1" and eps: "0 < epsilon"
  shows "\<exists>r. call_option_run apm zeta p_s T epsilon = Some r \<and>
           (0 < apm_n apm \<longrightarrow>
              (\<exists>s. r = Inr s \<and> ls_error s \<le> epsilon \<and>
                 call_option apm zeta p_s T epsilon = Some (Inr (ls_w_bar s, ls_w_bars s))))"
proof (cases "0 < apm_n apm")
  case False
  then have "apm_n apm = 0" by simp
  from call_option_run_no_state [OF v Pc this] False show ?thesis by simp
next
  case n: True
  let ?n = "apm_n apm" and ?beta = "apm_beta apm"
  from v have b: "0 < ?beta" by (simp add: valid_model_def)
  then have b0: "0 \<le> ?beta" by simp
  from P_check_valid [OF v ps] Pc have sh: "has_shape Pc ?n ?n" and nn: "nonneg_mat Pc" by simp_all
  have len: "length Pc = ?n" by (rule has_shape_length [OF sh])
  from spectral_radius_power [OF b rho] obtain m where
    c: "?beta ^ m * mat_norm (mat_pow Pc m) < 1" by blast
  from consol_price_succeeds [OF sh Pc refl system_nonsingular [OF sh n b0 c]]
  obtain v_bar where vb: "consol_price apm zeta = Inr v_bar" and lv: "length v_bar = ?n" by blast
  let ?s0 = "\<lparr>ls_w_bar = zeros ?n, ls_error = epsilon + 1, ls_t = 0, ls_w_bars = Map.empty\<rparr>"
  from bellman_change_small [OF sh nn lv b0 n c eps, of p_s] obtain K where
    K: "\<forall>i < ?n. bellman_change ?beta Pc v_bar p_s ?n K ! i \<le> epsilon" ..
  have "\<forall>i < ?n. abs_diff ((bellman ?beta Pc v_bar p_s ^^ K) (ls_w_bar ?s0))
                   ((bellman ?beta Pc v_bar p_s ^^ Suc K) (ls_w_bar ?s0)) ! i \<le> epsilon"
    using K by (simp add: bellman_change_def bellman_iter_def)
  from call_option_while_terminates [OF len lv n _ this, of T]
  obtain s where "call_option_while ?beta Pc v_bar p_s T epsilon ?s0 = Some (Inr s)"
    and e: "ls_error s \<le> epsilon"
    by (auto simp: zeros_def)
  then have run: "call_option_run apm zeta p_s T epsilon = Some (Inr s)"
    by (simp add: call_option_run_def Pc vb)
  then have "call_option apm zeta p_s T epsilon = Some (Inr (ls_w_bar s, ls_w_bars s))"
    by (simp add: call_option_result)
  with run e show ?thesis by blast
qed

lemma apm0_spectral: "apm_beta apm0 * spectral_radius [[1/2, 1/2], [1/4, 3/4]] < 1"
proof -
  let ?M = "[[1/2, 1/2], [1/4, 3/4 :: real]]"
  have p1: "mat_pow ?M 1 = ?M"
    by (simp add: mat_mul_def identity_def ncols_def column_def dot_def numeral_2_eq_2)
  have "mat_norm ?M = 1" by (simp add: mat_norm_def)
  with p1 have "root 1 (mat_norm (mat_pow ?M 1)) = 1" by simp
  then have mem: "1 \<in> {root k (mat_norm (mat_pow ?M k)) | k. 0 < k}"
    by (metis (mono_tags, lifting) mem_Collect_eq zero_less_one)
  have bdd: "bdd_below {root k (mat_norm (mat_pow ?M k)) | k. 0 < k}"
    using spectral_radius_set [of ?M] by (rule conjunct2)
  have "spectral_radius ?M \<le> 1"
    unfolding spectral_radius_def by (rule cInf_lower [OF mem bdd])
  then show ?thesis by (simp add: apm0_def)
qed

theorem call_option_terminates_witness:
  "valid_model apm0 \<and> positive_states apm0 \<and> P_check apm0 = Inr [[1/2, 1/2], [1/4, 3/4]] \<and>
   apm_beta apm0 * spectral_radius [[1/2, 1/2], [1/4, 3/4]] < 1 \<and> (0::real) < 1/100 \<and>
   0 < apm_n apm0 \<and>
   (\<exists>s. call_option_run apm0 3 1 [0, 1, 5] (1/100) = Some (Inr s) \<and> ls_error s \<le> 1/100 \<and>
        call_option apm0 3 1 [0, 1, 5] (1/100) = Some (Inr (ls_w_bar s, ls_w_bars s)))"
proof -
  have v: "valid_model apm0" by (simp add: valid_model_def apm0_def has_shape_def)
  have ps: "positive_states apm0" by (simp add: positive_states_def apm0_def)
  have e: "(0::real) < 1/100" by simp
  have n: "0 < apm_n apm0" by (simp add: apm0_def)
  from call_option_terminates [OF v ps apm0_P_check apm0_spectral e, of 3 1 "[0, 1, 5]"] n
  have "\<exists>s. call_option_run apm0 3 1 [0, 1, 5] (1/100) = Some (Inr s) \<and> ls_error s \<le> 1/100 \<and>
        call_option apm0 3 1 [0, 1, 5] (1/100) = Some (Inr (ls_w_bar s, ls_w_bars s))"
    by auto
  with v ps apm0_P_check apm0_spectral e n show ?thesis by blast
qed

text \<open>
  Without the positive state values the loop need not end. The model \<open>apm_neg\<close> has the
  state values \<open>[-1/4, 1/4]\<close> and \<open>gamma = 1\<close>, so that \<open>P_check\<close> is
  \<open>[[-2, 2], [-8/5, 12/5]]\<close>, with spectral radius below \<open>2\<close>: the norm of its square is
  \<open>16/5\<close>. With the coupon \<open>2\<close> and the strike \<open>1\<close>, \<open>v_bar\<close> is \<open>[2, 4]\<close> and the
  prices go from \<open>[0, 0]\<close> to \<open>[1, 3]\<close>, then to \<open>[2, 3]\<close>, back to \<open>[1, 3]\<close>, and so
  on: from the second pass on the error is \<open>1\<close>.
\<close>

lemma while_never_returns:
  assumes "call_option_while beta Pc v_bar p_s T epsilon s = Some r"
    and "\<And>s. Inv s \<Longrightarrow> epsilon < ls_error s \<and>
                 (\<exists>s1. call_option_body beta Pc v_bar p_s T s = Inr s1 \<and> Inv s1)"
    and "Inv s"
  shows False
  using assms
proof (induction beta Pc v_bar p_s T epsilon s r rule: call_option_while.raw_induct [rotated 1, consumes 1])
  case (1 while beta Pc v_bar p_s T epsilon s r)
  from "1.prems"(1) [OF "1.prems"(2)] obtain s1 where e: "epsilon < ls_error s"
    and b: "call_option_body beta Pc v_bar p_s T s = Inr s1" and i: "Inv s1"
    by blast
  from "1.hyps" e b have "while beta Pc v_bar p_s T epsilon s1 = Some r" by simp
  from "1.IH" [OF this "1.prems"(1) i] show ?case .
qed

lemma apm_neg_P_check: "P_check apm_neg = Inr [[- 2, 2], [- (8/5), 12/5]]"
  by (simp add: apm_neg_def P_check_def broadcast_mul_def ncols_def float_pow_def
      floor_minus_one_real power_int_minus powr_minus_divide)

lemma apm_neg_consol_price: "consol_price apm_neg 2 = Inr [2, 4]"
  by (simp add: consol_price_def apm_neg_P_check)
    (simp add: apm_neg_def has_shape_def solve_def mat_sub_def identity_def smult_def matvec_def
      ones_def dot_def numeral_2_eq_2 gauss.simps swap_rows_def eliminate_def)

lemma apm_neg_spectral: "apm_beta apm_neg * spectral_radius [[- 2, 2], [- (8/5), 12/5]] < 1"
proof -
  let ?M = "[[- 2, 2], [- (8/5), 12/5 :: real]]"
  have p2: "mat_pow ?M 2 = [[4/5, 4/5], [- (16/25), 64/25]]"
    by (simp add: numeral_2_eq_2 mat_mul_def identity_def ncols_def column_def dot_def)
  have "mat_norm [[4/5, 4/5], [- (16/25), 64/25 :: real]] = 16/5" by (simp add: mat_norm_def)
  with p2 have "root 2 (mat_norm (mat_pow ?M 2)) = sqrt (16/5)" by (simp add: sqrt_def)
  then have mem: "sqrt (16/5) \<in> {root k (mat_norm (mat_pow ?M k)) | k. 0 < k}"
    by (metis (mono_tags, lifting) mem_Collect_eq zero_less_numeral)
  have bdd: "bdd_below {root k (mat_norm (mat_pow ?M k)) | k. 0 < k}"
    using spectral_radius_set [of ?M] by (rule conjunct2)
  have "spectral_radius ?M \<le> sqrt (16/5)"
    unfolding spectral_radius_def by (rule cInf_lower [OF mem bdd])
  also have "sqrt (16/5) < 2" by (rule real_less_lsqrt) simp_all
  finally show ?thesis by (simp add: apm_neg_def)
qed

lemma apm_neg_body:
  assumes "ls_w_bar s = [1, 3] \<or> ls_w_bar s = [2, 3]"
  shows "\<exists>s1. call_option_body (1/2) [[- 2, 2], [- (8/5), 12/5]] [2, 4] 1 T s = Inr s1 \<and>
           (ls_w_bar s1 = [1, 3] \<or> ls_w_bar s1 = [2, 3]) \<and> ls_error s1 = 1"
  using assms
  by (auto simp: call_option_body_def amax_vstack_def amax_def matvec_def dot_def Let_def)

lemma apm_neg_run: "call_option_run apm_neg 2 1 T (1/100) = None"
proof (rule ccontr)
  let ?Pc = "[[- 2, 2], [- (8/5), 12/5 :: real]]"
  let ?s1 = "\<lparr>ls_w_bar = [1, 3], ls_error = 3, ls_t = 1,
               ls_w_bars = (if 0 \<in> set T then [0 \<mapsto> [0, 0]] else Map.empty)\<rparr>"
  assume "call_option_run apm_neg 2 1 T (1/100) \<noteq> None"
  then obtain r where r: "call_option_run apm_neg 2 1 T (1/100) = Some r" by blast
  have first: "call_option_body (1/2) ?Pc [2, 4] 1 T
      \<lparr>ls_w_bar = [0, 0], ls_error = 1/100 + 1, ls_t = 0, ls_w_bars = Map.empty\<rparr> = Inr ?s1"
    by (simp add: call_option_body_def amax_vstack_def amax_def matvec_def dot_def)
  have "call_option_run apm_neg 2 1 T (1/100) =
      call_option_while (1/2) ?Pc [2, 4] 1 T (1/100)
        \<lparr>ls_w_bar = [0, 0], ls_error = 1/100 + 1, ls_t = 0, ls_w_bars = Map.empty\<rparr>"
    by (simp add: call_option_run_def apm_neg_P_check apm_neg_consol_price)
      (simp add: apm_neg_def zeros_def numeral_2_eq_2)
  also have "\<dots> = call_option_while (1/2) ?Pc [2, 4] 1 T (1/100) ?s1"
    by (simp only: call_option_while_first first sum.case)
  finally have w: "call_option_while (1/2) ?Pc [2, 4] 1 T (1/100) ?s1 = Some r" using r by simp
  let ?Inv = "\<lambda>s. (ls_w_bar s = [1, 3] \<or> ls_w_bar s = [2, 3]) \<and> 1 \<le> ls_error s"
  have step: "1/100 < ls_error s \<and>
      (\<exists>s1. call_option_body (1/2) ?Pc [2, 4] 1 T s = Inr s1 \<and> ?Inv s1)" if "?Inv s" for s
  proof -
    from that have a: "ls_w_bar s = [1, 3] \<or> ls_w_bar s = [2, 3]" and e: "1 \<le> ls_error s"
      by blast+
    from apm_neg_body [OF a, of T] obtain s1 where
      "call_option_body (1/2) ?Pc [2, 4] 1 T s = Inr s1"
      and "ls_w_bar s1 = [1, 3] \<or> ls_w_bar s1 = [2, 3]" and "ls_error s1 = 1"
      by blast
    then have "\<exists>s1. call_option_body (1/2) ?Pc [2, 4] 1 T s = Inr s1 \<and> ?Inv s1" by auto
    with e show ?thesis by simp
  qed
  have init: "?Inv ?s1" by simp
  from while_never_returns [where Inv = ?Inv, OF w step init] show False .
qed

text \<open>
  The claim as stated, refuted: \<open>apm_neg\<close> is a valid model with \<open>beta\<close> in \<open>(0, 1)\<close> and
  \<open>beta * spectral_radius(P_check) < 1\<close>, the tolerance is positive, \<open>consol_price\<close>
  returns, and the loop of \<open>call_option\<close> never ends.
\<close>

theorem call_option_loops_forever:
  "valid_model apm_neg \<and> P_check apm_neg = Inr [[- 2, 2], [- (8/5), 12/5]] \<and>
   apm_beta apm_neg * spectral_radius [[- 2, 2], [- (8/5), 12/5]] < 1 \<and> (0::real) < 1/100 \<and>
   consol_price apm_neg 2 = Inr [2, 4] \<and>
   call_option_run apm_neg 2 1 [] (1/100) = None \<and>
   call_option apm_neg 2 1 [] (1/100) = None"
proof -
  have v: "valid_model apm_neg" by (simp add: valid_model_def apm_neg_def has_shape_def)
  have "call_option apm_neg 2 1 [] (1/100) = None"
    by (simp add: call_option_def apm_neg_run)
  with v apm_neg_P_check apm_neg_spectral apm_neg_consol_price apm_neg_run [of "[]"]
  show ?thesis by simp
qed

end
